theory Spec2Isabelle
  imports Complex_Main "HOL-Library.Word" "HOL-Library.Multiset"
begin

section \<open>cpubench1A: shared data\<close>

text \<open>
  The program is a single Go file, \<^verbatim>\<open>main.go\<close>. Its functions communicate with the
  operating system (CPU information, temporary files, subprocesses, the clock) and with
  goroutines over channels. Every value that comes from outside is an explicit argument
  of the model, every panic and every returned \<^verbatim>\<open>error\<close> is a value, and every
  observable action (a log call, a line on standard output, a subprocess run) is an
  event of a trace.
\<close>

text \<open>A Go \<^verbatim>\<open>error\<close> value; \<^verbatim>\<open>nil\<close> is \<open>None\<close> of \<open>error option\<close>.\<close>

datatype error = Error string

text \<open>A run-time panic of the Go runtime.\<close>

datatype panic = IndexOutOfRange

text \<open>
  A Go call either returns or panics. A panic unwinds the stack, so the events produced
  before it stay in the trace and nothing after it happens.
\<close>

datatype 'a outcome = Panics panic | Returns 'a

text \<open>
  \<^verbatim>\<open>float64\<close>. Rounding is not modelled: a finite value is a real number. The special
  values that IEEE division produces from a zero divisor are kept, because Go does not
  panic on a floating-point division by zero.
\<close>

datatype float64 = Fin real | PosInf | NegInf | NaN

fun f64_mul :: "float64 \<Rightarrow> float64 \<Rightarrow> float64" where
  "f64_mul (Fin a) (Fin b) = Fin (a * b)"
| "f64_mul NaN _ = NaN"
| "f64_mul _ NaN = NaN"
| "f64_mul (Fin a) PosInf = (if a = 0 then NaN else if 0 < a then PosInf else NegInf)"
| "f64_mul (Fin a) NegInf = (if a = 0 then NaN else if 0 < a then NegInf else PosInf)"
| "f64_mul PosInf (Fin b) = (if b = 0 then NaN else if 0 < b then PosInf else NegInf)"
| "f64_mul NegInf (Fin b) = (if b = 0 then NaN else if 0 < b then NegInf else PosInf)"
| "f64_mul PosInf PosInf = PosInf"
| "f64_mul NegInf NegInf = PosInf"
| "f64_mul PosInf NegInf = NegInf"
| "f64_mul NegInf PosInf = NegInf"

fun f64_div :: "float64 \<Rightarrow> float64 \<Rightarrow> float64" where
  "f64_div (Fin a) (Fin b) =
     (if b = 0 then (if a = 0 then NaN else if 0 < a then PosInf else NegInf)
      else Fin (a / b))"
| "f64_div NaN _ = NaN"
| "f64_div _ NaN = NaN"
| "f64_div (Fin a) PosInf = Fin 0"
| "f64_div (Fin a) NegInf = Fin 0"
| "f64_div PosInf (Fin b) = (if 0 \<le> b then PosInf else NegInf)"
| "f64_div NegInf (Fin b) = (if 0 \<le> b then NegInf else PosInf)"
| "f64_div PosInf PosInf = NaN"
| "f64_div PosInf NegInf = NaN"
| "f64_div NegInf PosInf = NaN"
| "f64_div NegInf NegInf = NaN"

text \<open>\<^verbatim>\<open>x < 0\<close> on \<^verbatim>\<open>float64\<close>: false for NaN, as every comparison with NaN is.\<close>

fun f64_negative :: "float64 \<Rightarrow> bool" where
  "f64_negative (Fin a) = (a < 0)"
| "f64_negative NegInf = True"
| "f64_negative PosInf = False"
| "f64_negative NaN = False"

text \<open>\<^verbatim>\<open>x >= 0\<close> on \<^verbatim>\<open>float64\<close>: true for \<open>+Inf\<close>, false for NaN.\<close>

fun f64_ge0 :: "float64 \<Rightarrow> bool" where
  "f64_ge0 (Fin a) = (0 \<le> a)"
| "f64_ge0 PosInf = True"
| "f64_ge0 NegInf = False"
| "f64_ge0 NaN = False"

text \<open>The conversion \<^verbatim>\<open>float64(n)\<close> of an integer.\<close>

definition f64_of_int :: "int \<Rightarrow> float64" where
  "f64_of_int n = Fin (of_int n)"

text \<open>The command-line flags (lines 24-35), after \<^verbatim>\<open>flag.Parse\<close>.\<close>

record flags =
  flagWorkers :: int
  flagThreads :: int
  flagRun :: bool
  flagBench :: bool
  flagFreq :: bool
  flagDuration :: int
  flagNb :: int
  flagRes :: string
  flagVersion :: bool
  flagDebug :: bool

text \<open>An argument of a formatted print.\<close>

datatype arg = AInt int | AStr string | AFloat float64 | AErr error

text \<open>
  Observable actions. The \<^verbatim>\<open>log\<close> calls are recorded as made; \<^verbatim>\<open>main\<close> sends the
  logger's output to \<^verbatim>\<open>ioutil.Discard\<close> unless \<^verbatim>\<open>-debug\<close> is given (lines 42-44).
\<close>

datatype event =
    Log_Printf string "arg list"
  | Log_Print "arg list"
  | Log_Println "arg list"
  | Fmt_Println "arg list"
  | Fmt_Printf string "arg list"
  | Cmd_Run string "arg list"
  | Os_Remove string
  | DisplayResult string int
  | Tmp_Close string
  | CountASM int
  | Time_Now int

section \<open>CPU information\<close>

text \<open>The fields of gopsutil's \<^verbatim>\<open>cpu.InfoStat\<close> that the program reads.\<close>

record InfoStat =
  CPU :: int
  VendorID :: string
  ModelName :: string
  Mhz :: float64
  PhysicalID :: string
  CoreID :: string

text \<open>
  What the operating system answers. A Go function returning \<^verbatim>\<open>(v, err)\<close> is a pair
  whose second component is \<open>None\<close> for \<^verbatim>\<open>nil\<close>; a \<^verbatim>\<open>nil\<close> slice is the empty list.
  \<open>os_Executable\<close> and \<open>cmd_Run\<close> are indexed by the number of earlier calls of
  \<^verbatim>\<open>spawnBench\<close>. \<open>AppendResult\<close> is the result of the function of that name, which
  lives in another file of the package; \<open>numa\<close> is the CPU-to-node table that
  lines 268-284 read from \<^verbatim>\<open>/sys/devices/system/node\<close>.
\<close>

record env =
  cpu_InfoWithContext :: "InfoStat list \<times> error option"
  cpu_Counts_physical :: "int \<times> error option"
  cpu_Counts_logical :: "int \<times> error option"
  numa :: "int \<rightharpoonup> int"
  ioutil_TempFile :: "string \<times> error option"
  os_Executable :: "nat \<Rightarrow> string \<times> error option"
  cmd_Run :: "nat \<Rightarrow> error option"
  AppendResult :: "string \<Rightarrow> int \<Rightarrow> float64 \<Rightarrow> error option"

text \<open>Lines 233-239.\<close>

definition getCPUInfo :: "env \<Rightarrow> InfoStat list \<times> error option" where
  "getCPUInfo e =
     (case cpu_InfoWithContext e of
        (cpuInfo, Some err) \<Rightarrow> ([], Some err)
      | (cpuInfo, None) \<Rightarrow> (cpuInfo, None))"

text \<open>Indexing \<^verbatim>\<open>xs[0]\<close>: a panic on an empty (or nil) slice.\<close>

definition index0 :: "'a list \<Rightarrow> 'a outcome" where
  "index0 xs = (case xs of [] \<Rightarrow> Panics IndexOutOfRange | x # _ \<Rightarrow> Returns x)"

text \<open>Lines 327-330: the error of \<^verbatim>\<open>getCPUInfo\<close> is assigned to \<^verbatim>\<open>_\<close>.\<close>

definition displayCPUVendorName :: "env \<Rightarrow> string outcome" where
  "displayCPUVendorName e =
     (case getCPUInfo e of
        (cpuinfo, _) \<Rightarrow>
          (case index0 cpuinfo of
             Panics p \<Rightarrow> Panics p
           | Returns c \<Rightarrow> Returns (ModelName c)))"

text \<open>Lines 286-293: one log line per CPU, node \<open>-1\<close> when the table has no entry.\<close>

definition numa_line :: "env \<Rightarrow> InfoStat \<Rightarrow> event" where
  "numa_line e c =
     Log_Printf ''CPU:%3d Socket:%3s CoreId:%3s Node:%3d''
       [AInt (CPU c), AStr (PhysicalID c), AStr (CoreID c),
        AInt (case numa e (CPU c) of None \<Rightarrow> - 1 | Some n \<Rightarrow> n)]"

text \<open>Lines 242-297.\<close>

definition displayCPU :: "env \<Rightarrow> event list \<times> error option outcome" where
  "displayCPU e =
     (case getCPUInfo e of
        (cpuinfo, Some err) \<Rightarrow> ([], Returns (Some err))
      | (cpuinfo, None) \<Rightarrow>
          (case index0 cpuinfo of
             Panics p \<Rightarrow> ([], Panics p)
           | Returns c0 \<Rightarrow>
               (let ev1 = [Log_Printf ''CPU: %s / %s'' [AStr (VendorID c0), AStr (ModelName c0)],
                           Log_Printf ''Max freq: %.2f mhz (as reported by OS)'' [AFloat (Mhz c0)]]
                in case cpu_Counts_physical e of
                     (nc, Some err) \<Rightarrow> (ev1, Returns (Some err))
                   | (nc, None) \<Rightarrow>
                       (case cpu_Counts_logical e of
                          (nt, Some err) \<Rightarrow> (ev1, Returns (Some err))
                        | (nt, None) \<Rightarrow>
                            (ev1 @ [Log_Printf ''Cores: %d'' [AInt nc],
                                    Log_Printf ''Threads: %d'' [AInt nt]]
                               @ map (numa_line e) cpuinfo @ [Log_Print []],
                             Returns None)))))"

section \<open>The report of a single iteration\<close>

text \<open>
  Lines 142-158 of \<^verbatim>\<open>runBench\<close>, from the throughput \<open>res\<close> on. The argument of
  \<^verbatim>\<open>fmt.Println\<close> is evaluated first, so a panic of \<^verbatim>\<open>displayCPUVendorName\<close> prints nothing.
\<close>

definition runBench_report :: "flags \<Rightarrow> env \<Rightarrow> float64 \<Rightarrow> event list \<times> error option outcome" where
  "runBench_report fl e res =
     (let ev1 = [Log_Printf ''THROUGHPUT %.6f'' [AFloat res]];
          ev_res =
            (if flagRes fl \<noteq> [] then
               (case AppendResult e (flagRes fl) (flagWorkers fl) res of
                  Some err \<Rightarrow>
                    [Log_Print [AErr err],
                     Log_Printf ''Cannot write result into temporary file: %s'' [AStr (flagRes fl)]]
                | None \<Rightarrow> [])
             else [])
      in if \<not> flagDebug fl then
           (case displayCPUVendorName e of
              Panics p \<Rightarrow> (ev1, Panics p)
            | Returns name \<Rightarrow>
                (ev1 @ [Fmt_Println [AStr name], Fmt_Printf (''%.6f'' @ [CHR 0x0A]) [AFloat res]]
                   @ ev_res @ [Log_Print []],
                 Returns None))
         else (ev1 @ ev_res @ [Log_Print []], Returns None))"

text \<open>The lines of a trace that go to standard output.\<close>

fun is_stdout :: "event \<Rightarrow> bool" where
  "is_stdout (Fmt_Println _) = True"
| "is_stdout (Fmt_Printf _ _) = True"
| "is_stdout _ = False"

definition stdout_of :: "event list \<Rightarrow> event list" where
  "stdout_of evs = filter is_stdout evs"

section \<open>The repeated benchmark\<close>

text \<open>
  Lines 205-231. \<open>k\<close> is the number of earlier calls. The options are kept as the
  arguments of \<^verbatim>\<open>strconv.Itoa\<close>.
\<close>

definition spawnBench :: "flags \<Rightarrow> env \<Rightarrow> nat \<Rightarrow> int \<Rightarrow> string \<Rightarrow> event list \<times> error option" where
  "spawnBench fl e k workers resfile =
     (case os_Executable e k of
        (executable, Some err) \<Rightarrow> ([], None)
      | (executable, None) \<Rightarrow>
          (let opt = [AStr ''-run'',
                      AStr ''-threads'', AInt (flagThreads fl),
                      AStr ''-workers'', AInt workers,
                      AStr ''-duration'', AInt (flagDuration fl),
                      AStr ''-nb'', AInt (flagNb fl),
                      AStr ''-res'', AStr resfile]
           in ([Cmd_Run executable opt], cmd_Run e k)))"

text \<open>
  The loops of lines 182-186 and 192-196: \<open>n\<close> iterations remain, \<open>k\<close> calls of
  \<^verbatim>\<open>spawnBench\<close> were made before. The result holds the number of calls made in all.
\<close>

fun spawn_loop :: "flags \<Rightarrow> env \<Rightarrow> int \<Rightarrow> string \<Rightarrow> nat \<Rightarrow> nat \<Rightarrow> event list \<times> error option \<times> nat" where
  "spawn_loop fl e workers resfile 0 k = ([], None, k)"
| "spawn_loop fl e workers resfile (Suc n) k =
     (case spawnBench fl e k workers resfile of
        (ev, Some err) \<Rightarrow> (ev, Some err, Suc k)
      | (ev, None) \<Rightarrow>
          (case spawn_loop fl e workers resfile n (Suc k) of
             (ev', r, k') \<Rightarrow> (ev @ ev', r, k')))"

text \<open>Lines 162-202. The deferred \<^verbatim>\<open>os.Remove\<close> runs on every return after line 176.\<close>

definition stdBench :: "flags \<Rightarrow> env \<Rightarrow> event list \<times> error option outcome" where
  "stdBench fl e =
     (let ev0 = [Log_Println [AStr ''Version: '', AStr ''3.0-dev''], Log_Print []]
      in case displayCPU e of
           (ev1, Panics p) \<Rightarrow> (ev0 @ ev1, Panics p)
         | (ev1, Returns (Some err)) \<Rightarrow> (ev0 @ ev1, Returns None)
         | (ev1, Returns None) \<Rightarrow>
             (case ioutil_TempFile e of
                (tmp, Some err) \<Rightarrow> (ev0 @ ev1, Returns (Some err))
              | (tmp, None) \<Rightarrow>
                  (let ev2 = [Log_Print [AStr ''Single threaded performance''],
                              Log_Print [AStr ''===========================''],
                              Log_Print []]
                   in case spawn_loop fl e 1 tmp (nat (flagNb fl)) 0 of
                        (ev3, Some err, k) \<Rightarrow>
                          (ev0 @ ev1 @ ev2 @ ev3 @ [Os_Remove tmp], Returns (Some err))
                      | (ev3, None, k) \<Rightarrow>
                          (let ev4 = [Log_Print [AStr ''Multi-threaded performance''],
                                      Log_Print [AStr ''==========================''],
                                      Log_Print []]
                           in case spawn_loop fl e (flagWorkers fl) tmp (nat (flagNb fl)) k of
                                (ev5, Some err, k') \<Rightarrow>
                                  (ev0 @ ev1 @ ev2 @ ev3 @ ev4 @ ev5 @ [Os_Remove tmp],
                                   Returns (Some err))
                              | (ev5, None, k') \<Rightarrow>
                                  (ev0 @ ev1 @ ev2 @ ev3 @ ev4 @ ev5
                                     @ [DisplayResult tmp (flagWorkers fl), Tmp_Close tmp,
                                        Os_Remove tmp],
                                   Returns None)))))"

text \<open>
  Lines 71-75 of \<^verbatim>\<open>main\<close>: \<^verbatim>\<open>log.Fatal\<close> exits with status 1, a \<^verbatim>\<open>nil\<close> error leads to
  \<^verbatim>\<open>os.Exit(0)\<close>; an unrecovered panic ends the process with status 2.
\<close>

fun exit_status :: "error option outcome \<Rightarrow> int" where
  "exit_status (Returns None) = 0"
| "exit_status (Returns (Some err)) = 1"
| "exit_status (Panics p) = 2"

text \<open>The subprocess runs of a trace.\<close>

fun is_Cmd_Run :: "event \<Rightarrow> bool" where
  "is_Cmd_Run (Cmd_Run _ _) = True"
| "is_Cmd_Run _ = False"

text \<open>Test environments.\<close>

definition cpu0 :: InfoStat where
  "cpu0 = \<lparr>CPU = 0, VendorID = ''GenuineIntel'', ModelName = ''Xeon'', Mhz = Fin 3000,
           PhysicalID = ''0'', CoreID = ''0''\<rparr>"

definition env_ok :: env where
  "env_ok = \<lparr>cpu_InfoWithContext = ([cpu0], None),
            cpu_Counts_physical = (1, None),
            cpu_Counts_logical = (1, None),
            numa = Map.empty,
            ioutil_TempFile = (''/tmp/cpubench1a-1'', None),
            os_Executable = (\<lambda>k. (''/bin/bench'', None)),
            cmd_Run = (\<lambda>k. None),
            AppendResult = (\<lambda>f w r. None)\<rparr>"

definition flags_default :: flags where
  "flags_default = \<lparr>flagWorkers = 4, flagThreads = 1, flagRun = False, flagBench = False,
                   flagFreq = False, flagDuration = 60, flagNb = 10, flagRes = [],
                   flagVersion = False, flagDebug = False\<rparr>"

section \<open>The frequency probe\<close>

text \<open>
  Line 312 and line 316 of \<^verbatim>\<open>measureFreq\<close>: the elapsed time in seconds and the
  frequency that is logged. \<open>NFREQ\<close> and \<open>ASMLoopCycles\<close> are constants of another
  file of the package and are arguments here; \<open>t\<close> and \<open>t2\<close> are what the clock
  answers at lines 309 and 311, in nanoseconds.
\<close>

definition measured_frequency :: "int \<Rightarrow> float64 \<Rightarrow> int \<Rightarrow> int \<Rightarrow> float64" where
  "measured_frequency NFREQ ASMLoopCycles t t2 =
     (let dur = f64_div (f64_of_int (t2 - t)) (Fin 1000000000)
      in f64_div (f64_div (f64_mul (f64_div (f64_of_int NFREQ) (Fin 1024)) ASMLoopCycles) dur)
           (Fin 1000000000))"

text \<open>
  Lines 300-319. \<^verbatim>\<open>CountASM\<close> is an assembly routine of another file; a call is an
  event of the trace, and nothing it returns is used.
\<close>

definition measureFreq :: "int \<Rightarrow> float64 \<Rightarrow> int \<Rightarrow> int \<Rightarrow> event list \<times> error option" where
  "measureFreq NFREQ ASMLoopCycles t t2 =
     ([Log_Println [AStr ''Version:'', AStr ''3.0-dev''],
       Log_Println [AStr ''Warming-up CPU''],
       CountASM NFREQ,
       Log_Println [AStr ''Measuring ...''],
       Time_Now t,
       CountASM NFREQ,
       Time_Now t2,
       Log_Println [AStr ''Frequency:'', AFloat (measured_frequency NFREQ ASMLoopCycles t t2),
             AStr ''GHz'']],
      None)"

text \<open>
  The formula as the specification words it: iteration count / 1024 \<times> cycles per
  iteration / elapsed seconds, expressed in GHz.
\<close>

definition spec_frequency_GHz :: "real \<Rightarrow> real \<Rightarrow> real \<Rightarrow> real" where
  "spec_frequency_GHz iteration_count cycles_per_iteration elapsed_seconds =
     iteration_count / 1024 * cycles_per_iteration / elapsed_seconds / 1000000000"

fun is_CountASM :: "event \<Rightarrow> bool" where
  "is_CountASM (CountASM n) = True"
| "is_CountASM e = False"

fun is_Time_Now :: "event \<Rightarrow> bool" where
  "is_Time_Now (Time_Now t) = True"
| "is_Time_Now e = False"

section \<open>The single iteration: orchestrator, workers and timer\<close>

text \<open>
  Lines 79-144 of \<^verbatim>\<open>runBench\<close> run concurrently with the worker goroutines and the
  goroutine of \<^verbatim>\<open>time.AfterFunc\<close>; they meet on four channels. The model is an
  interleaving semantics: a state holds the program counter and the variables of
  \<^verbatim>\<open>runBench\<close>, the local state of every worker, the contents of the buffered channels,
  the timer and the clock; one step is one action of one goroutine, and a schedule (a
  list of actors) picks who moves. A goroutine that would block has no step. Every
  statement below is about all schedules.
\<close>

text \<open>The commands of the work queue (the constants \<^verbatim>\<open>OpInit\<close>, \<^verbatim>\<open>OpStep\<close>, \<^verbatim>\<open>OpExit\<close>).\<close>

datatype WorkerOp = OpInit | OpStep | OpExit

text \<open>
  Modelled from the spec: \<^verbatim>\<open>Worker.Run\<close>, which is in another file of the package.
  By section 4.1 of the specification a worker blocks reading from the init queue exactly
  once, emits a readiness signal (value 0) on the result channel, then reads commands from
  the work queue: a Step performs one unit of work and increments the local counter, an
  Exit makes it emit the counter on the result channel and terminate.
  \<open>WaitInit\<close>: blocked on the init queue. \<open>Ready\<close>: about to emit readiness.
  \<open>Running c\<close>: reading the work queue, counter \<open>c\<close>. \<open>Working c\<close>: has taken a Step
  off the queue and computes. \<open>Exiting c\<close>: has taken an Exit, about to emit \<open>c\<close>.
  \<open>Finished c\<close>: terminated.
\<close>

datatype worker = WaitInit | Ready | Running nat | Working nat | Exiting nat | Finished nat

text \<open>The program counter of \<^verbatim>\<open>runBench\<close>; a loop index is the number of completed iterations.\<close>

datatype pc =
    Spawn nat      \<comment> \<open>lines 92-95: loop test, \<^verbatim>\<open>NewWorker\<close>, \<^verbatim>\<open>append\<close>, \<^verbatim>\<open>go w.Run()\<close>\<close>
  | SendInit nat   \<comment> \<open>line 96: \<^verbatim>\<open>init <- OpInit\<close>\<close>
  | Barrier nat    \<comment> \<open>lines 100-102: \<^verbatim>\<open><-output\<close>\<close>
  | GC             \<comment> \<open>lines 106-107\<close>
  | Begin          \<comment> \<open>line 111: \<^verbatim>\<open>begin := time.Now()\<close>\<close>
  | Arm            \<comment> \<open>lines 112-116: \<^verbatim>\<open>time.AfterFunc\<close>\<close>
  | Select         \<comment> \<open>lines 120-124: \<^verbatim>\<open>select\<close> on \<^verbatim>\<open>stop\<close> with a default case\<close>
  | Batch nat      \<comment> \<open>lines 125-127: \<^verbatim>\<open>input <- OpStep\<close>\<close>
  | SendExit nat   \<comment> \<open>lines 132-134: \<^verbatim>\<open>input <- OpExit\<close>\<close>
  | Collect nat    \<comment> \<open>lines 136-138: \<^verbatim>\<open>nb += <-output\<close>\<close>
  | End            \<comment> \<open>line 139: \<^verbatim>\<open>end := time.Now()\<close>\<close>
  | Compute        \<comment> \<open>lines 143-144\<close>
  | Done

text \<open>
  The timer of line 113. \<open>Fired\<close>: the function of \<^verbatim>\<open>AfterFunc\<close> has started and is
  blocked in \<^verbatim>\<open>stop <- true\<close> (the channel is unbuffered). \<open>Delivered\<close>: the
  \<^verbatim>\<open>select\<close> has received the value.
\<close>

datatype timer = Unarmed | Armed | Fired | Delivered

text \<open>
  What \<^verbatim>\<open>runBench\<close> does to the channels, the clock and the runtime, in order. A value
  on the result channel is paired with the index of the worker that sent it; the
  program does not see the index.
\<close>

datatype oevent =
    EGo nat
  | ESend WorkerOp
  | ERecv "nat \<times> int"
  | EGC
  | EBegin int
  | EAfterFunc int
  | EPoll bool
  | EEnd int

record state =
  pc :: pc
  workers :: "worker list"
  init_q :: "WorkerOp list"
  input_q :: "WorkerOp list"
  output_q :: "(nat \<times> int) list"
  timer :: timer
  deadline :: int
  now :: int
  begin_t :: int
  end_t :: int
  nb :: int
  res :: float64
  ready_rcvd :: "(nat \<times> int) list"
  final_rcvd :: "(nat \<times> int) list"
  batches :: nat
  olog :: "oevent list"

text \<open>
  \<open>ready_rcvd\<close>, \<open>final_rcvd\<close>, \<open>batches\<close> and \<open>olog\<close> are history variables: the values
  received at the barrier, the values received at the end, the number of completed
  batches, and the actions so far. No step reads them.
\<close>

definition init_state :: state where
  "init_state =
     \<lparr>pc = Spawn 0, workers = [], init_q = [], input_q = [], output_q = [],
      timer = Unarmed, deadline = 0, now = 0, begin_t = 0, end_t = 0, nb = 0, res = Fin 0,
      ready_rcvd = [], final_rcvd = [], batches = 0, olog = []\<rparr>"

text \<open>
  \<^verbatim>\<open>time.Duration(*flagDuration)*time.Second\<close> (line 113): a product of 64-bit
  integers, which wraps.
\<close>

definition duration_ns :: "int \<Rightarrow> int" where
  "duration_ns D = sint ((word_of_int D :: 64 word) * 1000000000)"

text \<open>
  One action of \<^verbatim>\<open>runBench\<close> with \<open>W\<close> workers (\<^verbatim>\<open>*flagWorkers\<close>) and duration \<open>D\<close>
  (\<^verbatim>\<open>*flagDuration\<close>); \<open>None\<close> when it blocks. The capacities are those of lines
  84-86: \<open>W\<close> for \<^verbatim>\<open>init\<close> and \<^verbatim>\<open>output\<close>, \<open>W * 32\<close> for \<^verbatim>\<open>input\<close>. A \<^verbatim>\<open>for range workers\<close>
  runs \<open>length (workers s)\<close> times. The \<^verbatim>\<open>select\<close> of line 121 takes the value of
  \<^verbatim>\<open>stop\<close> when the timer's function is waiting to send it and the default case
  otherwise. The \<^verbatim>\<open>log.Printf\<close> calls of lines 81, 88, 110, 114 and 140 are left out.

  \<open>W\<close> is a natural number: with a negative \<^verbatim>\<open>*flagWorkers\<close> line 84 panics and nothing
  of this runs. The products \<open>W * 16\<close> and \<open>W * 32\<close> and the sum \<open>nb\<close> are 64-bit
  integers in Go; they are unbounded here, which is the same as long as \<open>W * 32\<close> and the
  number of Steps processed stay below \<open>2^63\<close>, as they do for every channel that can be
  allocated and every run that ends. \<^verbatim>\<open>end.Sub(begin)\<close> is the difference of the two
  readings of the monotonic clock.
\<close>

definition orch_step :: "nat \<Rightarrow> int \<Rightarrow> state \<Rightarrow> state option" where
  "orch_step W D s =
     (case pc s of
        Spawn i \<Rightarrow>
          if i < W
          then Some (s\<lparr>workers := workers s @ [WaitInit], olog := olog s @ [EGo i],
                       pc := SendInit i\<rparr>)
          else Some (s\<lparr>pc := Barrier 0\<rparr>)
      | SendInit i \<Rightarrow>
          if length (init_q s) < W
          then Some (s\<lparr>init_q := init_q s @ [OpInit], olog := olog s @ [ESend OpInit],
                       pc := Spawn (Suc i)\<rparr>)
          else None
      | Barrier k \<Rightarrow>
          if k < length (workers s)
          then (case output_q s of
                  [] \<Rightarrow> None
                | v # q \<Rightarrow>
                    Some (s\<lparr>output_q := q, ready_rcvd := ready_rcvd s @ [v],
                            olog := olog s @ [ERecv v], pc := Barrier (Suc k)\<rparr>))
          else Some (s\<lparr>pc := GC\<rparr>)
      | GC \<Rightarrow> Some (s\<lparr>olog := olog s @ [EGC, EGC], pc := Begin\<rparr>)
      | Begin \<Rightarrow> Some (s\<lparr>begin_t := now s, olog := olog s @ [EBegin (now s)], pc := Arm\<rparr>)
      | Arm \<Rightarrow>
          Some (s\<lparr>timer := Armed, deadline := now s + duration_ns D,
                  olog := olog s @ [EAfterFunc (duration_ns D)], pc := Select\<rparr>)
      | Select \<Rightarrow>
          if timer s = Fired
          then Some (s\<lparr>timer := Delivered, olog := olog s @ [EPoll True], pc := SendExit 0\<rparr>)
          else Some (s\<lparr>olog := olog s @ [EPoll False], pc := Batch 0\<rparr>)
      | Batch i \<Rightarrow>
          if i < W * 16
          then (if length (input_q s) < W * 32
                then Some (s\<lparr>input_q := input_q s @ [OpStep], olog := olog s @ [ESend OpStep],
                             pc := Batch (Suc i)\<rparr>)
                else None)
          else Some (s\<lparr>batches := Suc (batches s), pc := Select\<rparr>)
      | SendExit k \<Rightarrow>
          if k < length (workers s)
          then (if length (input_q s) < W * 32
                then Some (s\<lparr>input_q := input_q s @ [OpExit], olog := olog s @ [ESend OpExit],
                             pc := SendExit (Suc k)\<rparr>)
                else None)
          else Some (s\<lparr>nb := 0, pc := Collect 0\<rparr>)
      | Collect k \<Rightarrow>
          if k < length (workers s)
          then (case output_q s of
                  [] \<Rightarrow> None
                | v # q \<Rightarrow>
                    Some (s\<lparr>output_q := q, nb := nb s + snd v, final_rcvd := final_rcvd s @ [v],
                            olog := olog s @ [ERecv v], pc := Collect (Suc k)\<rparr>))
          else Some (s\<lparr>pc := End\<rparr>)
      | End \<Rightarrow> Some (s\<lparr>end_t := now s, olog := olog s @ [EEnd (now s)], pc := Compute\<rparr>)
      | Compute \<Rightarrow>
          Some (s\<lparr>res := f64_div (f64_mul (f64_of_int (nb s)) (Fin 1000000000))
                                  (f64_of_int (end_t s - begin_t s)),
                  pc := Done\<rparr>)
      | Done \<Rightarrow> None)"

text \<open>
  Modelled from the spec: one action of worker \<open>j\<close> (\<^verbatim>\<open>Worker.Run\<close>, section 4.1 of the
  specification). The specification does not say what a worker does with an Init on the
  work queue; the model drops it, and \<^verbatim>\<open>runBench\<close> never sends one there.
\<close>

definition worker_step :: "nat \<Rightarrow> nat \<Rightarrow> state \<Rightarrow> state option" where
  "worker_step W j s =
     (if j < length (workers s) then
        (case workers s ! j of
           WaitInit \<Rightarrow>
             (case init_q s of
                [] \<Rightarrow> None
              | c # q \<Rightarrow> Some (s\<lparr>init_q := q, workers := (workers s)[j := Ready]\<rparr>))
         | Ready \<Rightarrow>
             if length (output_q s) < W
             then Some (s\<lparr>output_q := output_q s @ [(j, 0)],
                          workers := (workers s)[j := Running 0]\<rparr>)
             else None
         | Running c \<Rightarrow>
             (case input_q s of
                [] \<Rightarrow> None
              | OpStep # q \<Rightarrow> Some (s\<lparr>input_q := q, workers := (workers s)[j := Working c]\<rparr>)
              | OpExit # q \<Rightarrow> Some (s\<lparr>input_q := q, workers := (workers s)[j := Exiting c]\<rparr>)
              | OpInit # q \<Rightarrow> Some (s\<lparr>input_q := q\<rparr>))
         | Working c \<Rightarrow> Some (s\<lparr>workers := (workers s)[j := Running (Suc c)]\<rparr>)
         | Exiting c \<Rightarrow>
             if length (output_q s) < W
             then Some (s\<lparr>output_q := output_q s @ [(j, int c)],
                          workers := (workers s)[j := Finished c]\<rparr>)
             else None
         | Finished c \<Rightarrow> None)
      else None)"

text \<open>
  The timer fires once the clock has reached the deadline; a duration that is zero or
  negative fires at once.
\<close>

definition timer_step :: "state \<Rightarrow> state option" where
  "timer_step s =
     (if timer s = Armed \<and> deadline s \<le> now s then Some (s\<lparr>timer := Fired\<rparr>) else None)"

text \<open>The monotonic clock advances by a nanosecond.\<close>

definition tick :: "state \<Rightarrow> state option" where
  "tick s = Some (s\<lparr>now := now s + 1\<rparr>)"

datatype actor = Orch | Work nat | Timer | Tick

fun exec :: "nat \<Rightarrow> int \<Rightarrow> actor \<Rightarrow> state \<Rightarrow> state option" where
  "exec W D Orch s = orch_step W D s"
| "exec W D (Work j) s = worker_step W j s"
| "exec W D Timer s = timer_step s"
| "exec W D Tick s = tick s"

text \<open>A schedule, run from a state; \<open>None\<close> when it picks a blocked goroutine.\<close>

fun run :: "nat \<Rightarrow> int \<Rightarrow> actor list \<Rightarrow> state \<Rightarrow> state option" where
  "run W D [] s = Some s"
| "run W D (a # as) s = (case exec W D a s of None \<Rightarrow> None | Some s' \<Rightarrow> run W D as s')"

section \<open>Invariants of the single iteration\<close>

text \<open>
  The log of \<^verbatim>\<open>runBench\<close> is determined by its program counter and the history
  variables. \<open>spawn_log i\<close> is the log of \<open>i\<close> iterations of the loop of lines 92-97,
  \<open>batch_log i\<close> the log of an iteration of the load loop that has sent \<open>i\<close> Steps,
  \<open>loop_log W n\<close> the log of \<open>n\<close> complete iterations of the load loop.
\<close>

definition spawn_log :: "nat \<Rightarrow> oevent list" where
  "spawn_log i = concat (map (\<lambda>j. [EGo j, ESend OpInit]) [0..<i])"

definition batch_log :: "nat \<Rightarrow> oevent list" where
  "batch_log i = EPoll False # replicate i (ESend OpStep)"

definition loop_log :: "nat \<Rightarrow> nat \<Rightarrow> oevent list" where
  "loop_log W n = concat (replicate n (batch_log (W * 16)))"

definition start_log :: "nat \<Rightarrow> int \<Rightarrow> state \<Rightarrow> oevent list" where
  "start_log W D s =
     spawn_log W @ map ERecv (ready_rcvd s)
       @ [EGC, EGC, EBegin (begin_t s), EAfterFunc (duration_ns D)]"

definition stop_log :: "nat \<Rightarrow> int \<Rightarrow> state \<Rightarrow> oevent list" where
  "stop_log W D s =
     start_log W D s @ loop_log W (batches s) @ [EPoll True] @ replicate W (ESend OpExit)
       @ map ERecv (final_rcvd s)"

fun expected_log :: "nat \<Rightarrow> int \<Rightarrow> state \<Rightarrow> pc \<Rightarrow> oevent list" where
  "expected_log W D s (Spawn i) = spawn_log i"
| "expected_log W D s (SendInit i) = spawn_log i @ [EGo i]"
| "expected_log W D s (Barrier k) = spawn_log W @ map ERecv (ready_rcvd s)"
| "expected_log W D s GC = spawn_log W @ map ERecv (ready_rcvd s)"
| "expected_log W D s Begin = spawn_log W @ map ERecv (ready_rcvd s) @ [EGC, EGC]"
| "expected_log W D s Arm =
     spawn_log W @ map ERecv (ready_rcvd s) @ [EGC, EGC, EBegin (begin_t s)]"
| "expected_log W D s Select = start_log W D s @ loop_log W (batches s)"
| "expected_log W D s (Batch i) = start_log W D s @ loop_log W (batches s) @ batch_log i"
| "expected_log W D s (SendExit k) =
     start_log W D s @ loop_log W (batches s) @ [EPoll True] @ replicate k (ESend OpExit)"
| "expected_log W D s (Collect k) = stop_log W D s"
| "expected_log W D s End = stop_log W D s"
| "expected_log W D s Compute = stop_log W D s @ [EEnd (end_t s)]"
| "expected_log W D s Done = stop_log W D s @ [EEnd (end_t s)]"

text \<open>
  What holds of the variables of \<^verbatim>\<open>runBench\<close> at each program point: the bounds of the
  loop indices, the length of the slice \<^verbatim>\<open>workers\<close>, how many values have been received,
  and that \<open>nb\<close> is the sum of the values received in the loop of lines 136-138.
\<close>

fun pc_inv :: "nat \<Rightarrow> state \<Rightarrow> pc \<Rightarrow> bool" where
  "pc_inv W s (Spawn i) =
     (i \<le> W \<and> length (workers s) = i \<and> ready_rcvd s = [] \<and> final_rcvd s = [] \<and> batches s = 0)"
| "pc_inv W s (SendInit i) =
     (i < W \<and> length (workers s) = Suc i \<and> ready_rcvd s = [] \<and> final_rcvd s = []
      \<and> batches s = 0)"
| "pc_inv W s (Barrier k) =
     (k \<le> W \<and> length (workers s) = W \<and> length (ready_rcvd s) = k \<and> final_rcvd s = []
      \<and> batches s = 0)"
| "pc_inv W s (Batch i) =
     (i \<le> W * 16 \<and> length (workers s) = W \<and> length (ready_rcvd s) = W \<and> final_rcvd s = [])"
| "pc_inv W s (SendExit k) =
     (k \<le> W \<and> length (workers s) = W \<and> length (ready_rcvd s) = W \<and> final_rcvd s = [])"
| "pc_inv W s (Collect k) =
     (k \<le> W \<and> length (workers s) = W \<and> length (ready_rcvd s) = W
      \<and> length (final_rcvd s) = k \<and> nb s = sum_list (map snd (final_rcvd s)))"
| "pc_inv W s End =
     (length (workers s) = W \<and> length (ready_rcvd s) = W
      \<and> length (final_rcvd s) = W \<and> nb s = sum_list (map snd (final_rcvd s)))"
| "pc_inv W s Compute =
     (length (workers s) = W \<and> length (ready_rcvd s) = W
      \<and> length (final_rcvd s) = W \<and> nb s = sum_list (map snd (final_rcvd s)))"
| "pc_inv W s Done =
     (length (workers s) = W \<and> length (ready_rcvd s) = W
      \<and> length (final_rcvd s) = W \<and> nb s = sum_list (map snd (final_rcvd s))
      \<and> res s = f64_div (f64_mul (f64_of_int (nb s)) (Fin 1000000000))
                        (f64_of_int (end_t s - begin_t s)))"
| "pc_inv W s Select =
     (length (workers s) = W \<and> length (ready_rcvd s) = W \<and> final_rcvd s = [])"
| "pc_inv W s p =
     (length (workers s) = W \<and> length (ready_rcvd s) = W \<and> final_rcvd s = []
      \<and> batches s = 0)"

definition orch_inv :: "nat \<Rightarrow> int \<Rightarrow> state \<Rightarrow> bool" where
  "orch_inv W D s = (pc_inv W s (pc s) \<and> olog s = expected_log W D s (pc s))"

text \<open>
  The timer and the clock at each program point: the timer is armed exactly in the load
  loop, it has fired only if the clock has reached the deadline, and the deadline is at
  least \<open>duration_ns D\<close> after the start timestamp.
\<close>

fun timer_inv_pc :: "int \<Rightarrow> state \<Rightarrow> pc \<Rightarrow> bool" where
  "timer_inv_pc D s Arm = (timer s = Unarmed \<and> begin_t s \<le> now s)"
| "timer_inv_pc D s Select =
     ((timer s = Armed \<or> timer s = Fired) \<and> begin_t s + duration_ns D \<le> deadline s
      \<and> begin_t s \<le> now s \<and> (timer s = Fired \<longrightarrow> deadline s \<le> now s))"
| "timer_inv_pc D s (Batch i) =
     ((timer s = Armed \<or> timer s = Fired) \<and> begin_t s + duration_ns D \<le> deadline s
      \<and> begin_t s \<le> now s \<and> (timer s = Fired \<longrightarrow> deadline s \<le> now s))"
| "timer_inv_pc D s (SendExit k) =
     (timer s = Delivered \<and> begin_t s + duration_ns D \<le> deadline s
      \<and> begin_t s \<le> now s \<and> deadline s \<le> now s)"
| "timer_inv_pc D s (Collect k) =
     (timer s = Delivered \<and> begin_t s + duration_ns D \<le> deadline s
      \<and> begin_t s \<le> now s \<and> deadline s \<le> now s)"
| "timer_inv_pc D s End =
     (timer s = Delivered \<and> begin_t s + duration_ns D \<le> deadline s
      \<and> begin_t s \<le> now s \<and> deadline s \<le> now s)"
| "timer_inv_pc D s Compute =
     (timer s = Delivered \<and> begin_t s + duration_ns D \<le> end_t s
      \<and> begin_t s \<le> end_t s \<and> end_t s \<le> now s)"
| "timer_inv_pc D s Done =
     (timer s = Delivered \<and> begin_t s + duration_ns D \<le> end_t s
      \<and> begin_t s \<le> end_t s \<and> end_t s \<le> now s)"
| "timer_inv_pc D s p = (timer s = Unarmed)"

definition timer_inv :: "int \<Rightarrow> state \<Rightarrow> bool" where
  "timer_inv D s = timer_inv_pc D s (pc s)"

text \<open>
  What a worker has done so far, read off its state: whether it has taken its Init,
  sent its readiness signal, taken an Exit, sent its final count; how many Steps it has
  taken off the work queue; and its counter.
\<close>

fun inits_taken :: "worker \<Rightarrow> nat" where
  "inits_taken WaitInit = 0"
| "inits_taken w = 1"

fun ready_sent :: "worker \<Rightarrow> nat" where
  "ready_sent WaitInit = 0"
| "ready_sent Ready = 0"
| "ready_sent w = 1"

fun exited :: "worker \<Rightarrow> nat" where
  "exited (Exiting c) = 1"
| "exited (Finished c) = 1"
| "exited w = 0"

fun finished :: "worker \<Rightarrow> nat" where
  "finished (Finished c) = 1"
| "finished w = 0"

fun begun :: "worker \<Rightarrow> nat" where
  "begun (Running c) = c"
| "begun (Working c) = Suc c"
| "begun (Exiting c) = c"
| "begun (Finished c) = c"
| "begun w = 0"


text \<open>What \<^verbatim>\<open>runBench\<close> has sent so far, read off its program counter.\<close>

fun inits_sent :: "nat \<Rightarrow> pc \<Rightarrow> nat" where
  "inits_sent W (Spawn i) = i"
| "inits_sent W (SendInit i) = i"
| "inits_sent W p = W"

fun exits_sent :: "nat \<Rightarrow> pc \<Rightarrow> nat" where
  "exits_sent W (SendExit k) = k"
| "exits_sent W (Collect k) = W"
| "exits_sent W End = W"
| "exits_sent W Compute = W"
| "exits_sent W Done = W"
| "exits_sent W p = 0"

fun steps_sent :: "nat \<Rightarrow> nat \<Rightarrow> pc \<Rightarrow> nat" where
  "steps_sent W n (Batch i) = W * 16 * n + i"
| "steps_sent W n p = W * 16 * n"

definition count_op :: "WorkerOp \<Rightarrow> WorkerOp list \<Rightarrow> nat" where
  "count_op c q = length (filter (\<lambda>x. x = c) q)"

text \<open>
  Nothing is lost or duplicated in a channel: what was sent is what is in the channel
  plus what was received, for the Inits, for the values on the result channel, for the
  Exits and for the Steps; and the work queue never holds an Init.
\<close>

definition count_inv :: "nat \<Rightarrow> state \<Rightarrow> bool" where
  "count_inv W s =
     (length (init_q s) + sum_list (map inits_taken (workers s)) = inits_sent W (pc s)
      \<and> length (ready_rcvd s) + length (final_rcvd s) + length (output_q s)
          = sum_list (map ready_sent (workers s)) + sum_list (map finished (workers s))
      \<and> count_op OpExit (input_q s) + sum_list (map exited (workers s)) = exits_sent W (pc s)
      \<and> count_op OpStep (input_q s) + sum_list (map begun (workers s))
          = steps_sent W (batches s) (pc s)
      \<and> count_op OpInit (input_q s) = 0)"

text \<open>
  The states a worker can be in during the barrier (\<open>fresh\<close>), during the load loop
  (\<open>alive\<close>) and from then on (\<open>started\<close>).
\<close>

fun fresh :: "worker \<Rightarrow> bool" where
  "fresh WaitInit = True"
| "fresh Ready = True"
| "fresh (Running c) = (c = 0)"
| "fresh w = False"

fun alive :: "worker \<Rightarrow> bool" where
  "alive (Running c) = True"
| "alive (Working c) = True"
| "alive w = False"

fun started :: "worker \<Rightarrow> bool" where
  "started WaitInit = False"
| "started Ready = False"
| "started w = True"

text \<open>
  Values of the result channel: readiness signals come from distinct workers that have
  sent theirs and have value 0; final counts come from distinct workers that have
  terminated and are their counters.
\<close>

definition ready_msgs :: "nat \<Rightarrow> (nat \<times> int) list \<Rightarrow> bool" where
  "ready_msgs W ms = (distinct (map fst ms) \<and> (\<forall>m \<in> set ms. fst m < W \<and> snd m = 0))"

definition ready_from :: "worker list \<Rightarrow> (nat \<times> int) list \<Rightarrow> bool" where
  "ready_from ws ms =
     (distinct (map fst ms)
      \<and> (\<forall>m \<in> set ms. fst m < length ws \<and> ws ! fst m = Running 0 \<and> snd m = 0))"

definition final_from :: "worker list \<Rightarrow> (nat \<times> int) list \<Rightarrow> bool" where
  "final_from ws ms =
     (distinct (map fst ms)
      \<and> (\<forall>m \<in> set ms. fst m < length ws \<and> ws ! fst m = Finished (nat (snd m)) \<and> 0 \<le> snd m))"

text \<open>
  The four phases of \<^verbatim>\<open>runBench\<close>: up to the end of the barrier, from there to the arming
  of the timer, the load loop, and the shutdown; and what holds of the workers and the
  channels in each.
\<close>

datatype phase = Starting | Idle | Loading | Stopping

fun phase_of :: "pc \<Rightarrow> phase" where
  "phase_of (Spawn i) = Starting"
| "phase_of (SendInit i) = Starting"
| "phase_of (Barrier k) = Starting"
| "phase_of GC = Idle"
| "phase_of Begin = Idle"
| "phase_of Arm = Idle"
| "phase_of Select = Loading"
| "phase_of (Batch i) = Loading"
| "phase_of p = Stopping"

fun phase_ok :: "nat \<Rightarrow> state \<Rightarrow> phase \<Rightarrow> bool" where
  "phase_ok W s Starting =
     ((\<forall>w \<in> set (workers s). fresh w) \<and> input_q s = []
      \<and> ready_from (workers s) (ready_rcvd s @ output_q s))"
| "phase_ok W s Idle =
     (set (workers s) \<subseteq> {Running 0} \<and> input_q s = [] \<and> output_q s = []
      \<and> init_q s = [] \<and> ready_msgs W (ready_rcvd s))"
| "phase_ok W s Loading =
     ((\<forall>w \<in> set (workers s). alive w) \<and> output_q s = [] \<and> init_q s = []
      \<and> ready_msgs W (ready_rcvd s))"
| "phase_ok W s Stopping =
     ((\<forall>w \<in> set (workers s). started w) \<and> init_q s = [] \<and> ready_msgs W (ready_rcvd s)
      \<and> final_from (workers s) (final_rcvd s @ output_q s))"

definition phase_inv :: "nat \<Rightarrow> state \<Rightarrow> bool" where
  "phase_inv W s = phase_ok W s (phase_of (pc s))"

text \<open>The invariant of the reachable states.\<close>

definition reach_inv :: "nat \<Rightarrow> int \<Rightarrow> state \<Rightarrow> bool" where
  "reach_inv W D s = (orch_inv W D s \<and> timer_inv D s \<and> count_inv W s \<and> phase_inv W s)"

text \<open>
  Kinds of log entries: receives; the entries that must not come before the barrier is
  complete (a Step send, the start timestamp); the entries of the load loop (a poll, a
  Step send); the entries of the shutdown (the successful poll, an Exit send, the end
  timestamp).
\<close>

fun is_ERecv :: "oevent \<Rightarrow> bool" where
  "is_ERecv (ERecv v) = True"
| "is_ERecv e = False"

fun is_start :: "oevent \<Rightarrow> bool" where
  "is_start (ESend OpStep) = True"
| "is_start (EBegin t) = True"
| "is_start e = False"

definition barrier_log :: "nat \<Rightarrow> state \<Rightarrow> oevent list" where
  "barrier_log W s = spawn_log W @ map ERecv (ready_rcvd s)"


fun is_loop :: "oevent \<Rightarrow> bool" where
  "is_loop (ESend OpStep) = True"
| "is_loop (EPoll b) = True"
| "is_loop e = False"


fun is_stop :: "oevent \<Rightarrow> bool" where
  "is_stop (ESend OpExit) = True"
| "is_stop (EPoll b) = b"
| "is_stop (EEnd t) = True"
| "is_stop e = False"

text \<open>
  The work queue is first in, first out: it holds Steps followed by Exits, and once a
  worker has taken an Exit no Step is left in it.
\<close>

definition exits_taken :: "worker list \<Rightarrow> nat" where
  "exits_taken ws = sum_list (map exited ws)"


text \<open>
  A bound on the steps that remain when the timer is not running: the steps
  \<^verbatim>\<open>runBench\<close> still has to make on its way to the end, two steps of a worker for every
  command in the work queue, and the steps each worker owes in its current state.
\<close>

fun worker_rem :: "worker \<Rightarrow> nat" where
  "worker_rem WaitInit = 2"
| "worker_rem Ready = 1"
| "worker_rem (Running c) = 0"
| "worker_rem (Working c) = 1"
| "worker_rem (Exiting c) = 1"
| "worker_rem (Finished c) = 0"

fun orch_rem :: "nat \<Rightarrow> pc \<Rightarrow> nat" where
  "orch_rem W Done = 0"
| "orch_rem W Compute = 1"
| "orch_rem W End = 2"
| "orch_rem W (Collect k) = 3 + (W - k)"
| "orch_rem W (SendExit k) = 4 + W + 3 * (W - k)"
| "orch_rem W Select = 5 + 4 * W"
| "orch_rem W (Batch i) = 6 + 4 * W + 3 * (W * 16 - i)"
| "orch_rem W Arm = 6 + 4 * W"
| "orch_rem W Begin = 7 + 4 * W"
| "orch_rem W GC = 8 + 4 * W"
| "orch_rem W (Barrier k) = 9 + 4 * W + (W - k)"
| "orch_rem W (SendInit i) = 8 + 5 * W + 4 * (W - i)"
| "orch_rem W (Spawn i) = 11 + 5 * W + 4 * (W - i)"

definition remaining :: "nat \<Rightarrow> state \<Rightarrow> nat" where
  "remaining W s =
     orch_rem W (pc s) + 2 * length (input_q s) + sum_list (map worker_rem (workers s))"

text \<open>\<^verbatim>\<open>runBench\<close> or a worker has a step.\<close>

definition can_move :: "nat \<Rightarrow> int \<Rightarrow> state \<Rightarrow> bool" where
  "can_move W D s = (orch_step W D s \<noteq> None \<or> (\<exists>j<length (workers s). worker_step W j s \<noteq> None))"

section \<open>Test runs\<close>

text \<open>
  Schedules for two workers and a duration of zero seconds, and the states they reach:
  the state in the middle of the barrier (one worker has reported, the other has not
  yet read its Init), the state in which the timer is armed, the state in which it has
  fired before the first poll and the state after that poll, the state in which the
  work queue is full, and the end of a complete run in which worker 0 processes 20 Steps
  and worker 1 processes 12, and worker 1 reports first both times.
\<close>

definition demo_start :: "actor list" where
  "demo_start =
     [Orch, Orch, Orch, Orch, Orch, Work 1, Work 1, Work 0, Work 0, Orch, Orch, Orch,
      Orch, Orch, Orch]"

definition demo_sched :: "actor list" where
  "demo_sched =
     demo_start @ [Orch] @ replicate 32 Orch @ [Orch]
       @ replicate 40 (Work 0) @ replicate 24 (Work 1)
       @ [Tick, Tick, Tick, Timer, Orch, Orch, Orch, Orch, Work 1, Work 1, Work 0, Work 0,
          Orch, Orch, Orch, Tick, Orch, Orch]"

definition demo_full_sched :: "actor list" where
  "demo_full_sched =
     demo_start @ [Orch] @ replicate 32 Orch @ [Orch, Orch] @ replicate 32 Orch @ [Orch, Orch]"

definition demo_mid :: state where
  "demo_mid =
     \<lparr>pc = Barrier 0, workers = [WaitInit, Running 0], init_q = [OpInit], input_q = [],
      output_q = [(1, 0)], timer = Unarmed, deadline = 0, now = 0, begin_t = 0, end_t = 0,
      nb = 0, res = Fin 0, ready_rcvd = [], final_rcvd = [], batches = 0,
      olog = [EGo 0, ESend OpInit, EGo 1, ESend OpInit]\<rparr>"

definition demo_armed :: state where
  "demo_armed =
     \<lparr>pc = Select, workers = [Running 0, Running 0], init_q = [], input_q = [],
      output_q = [], timer = Armed, deadline = 0, now = 0, begin_t = 0, end_t = 0, nb = 0,
      res = Fin 0, ready_rcvd = [(1, 0), (0, 0)], final_rcvd = [], batches = 0,
      olog = [EGo 0, ESend OpInit, EGo 1, ESend OpInit, ERecv (1, 0), ERecv (0, 0),
              EGC, EGC, EBegin 0, EAfterFunc 0]\<rparr>"

definition demo_fired :: state where
  "demo_fired = demo_armed\<lparr>timer := Fired\<rparr>"

definition demo_exit :: state where
  "demo_exit =
     demo_armed\<lparr>timer := Delivered, olog := olog demo_armed @ [EPoll True], pc := SendExit 0\<rparr>"

definition demo_full :: state where
  "demo_full =
     demo_armed\<lparr>input_q := replicate 64 OpStep, batches := 2,
       olog := olog demo_armed @ [EPoll False] @ replicate 32 (ESend OpStep) @ [EPoll False]
                 @ replicate 32 (ESend OpStep) @ [EPoll False],
       pc := Batch 0\<rparr>"

definition demo_final :: state where
  "demo_final =
     \<lparr>pc = Done, workers = [Finished 20, Finished 12], init_q = [], input_q = [],
      output_q = [], timer = Delivered, deadline = 0, now = 4, begin_t = 0, end_t = 4,
      nb = 32, res = Fin 8000000000, ready_rcvd = [(1, 0), (0, 0)],
      final_rcvd = [(1, 12), (0, 20)], batches = 1,
      olog = [EGo 0, ESend OpInit, EGo 1, ESend OpInit, ERecv (1, 0), ERecv (0, 0),
              EGC, EGC, EBegin 0, EAfterFunc 0, EPoll False]
               @ replicate 32 (ESend OpStep)
               @ [EPoll True, ESend OpExit, ESend OpExit, ERecv (1, 12), ERecv (0, 20),
                  EEnd 4]\<rparr>"

text \<open>
  A run of one second with two workers in which the timer fires before the first poll,
  so that no Step is sent.
\<close>

definition demo_sec_sched :: "actor list" where
  "demo_sec_sched =
     demo_start @ replicate 1000000000 Tick
       @ [Timer, Orch, Orch, Orch, Orch, Work 1, Work 1, Work 0, Work 0, Orch, Orch, Orch,
          Orch, Orch]"

definition demo_sec_final :: state where
  "demo_sec_final =
     \<lparr>pc = Done, workers = [Finished 0, Finished 0], init_q = [], input_q = [],
      output_q = [], timer = Delivered, deadline = 1000000000, now = 1000000000, begin_t = 0,
      end_t = 1000000000, nb = 0, res = Fin 0, ready_rcvd = [(1, 0), (0, 0)],
      final_rcvd = [(1, 0), (0, 0)], batches = 0,
      olog = [EGo 0, ESend OpInit, EGo 1, ESend OpInit, ERecv (1, 0), ERecv (0, 0),
              EGC, EGC, EBegin 0, EAfterFunc 1000000000, EPoll True, ESend OpExit, ESend OpExit,
              ERecv (1, 0), ERecv (0, 0), EEnd 1000000000]\<rparr>"

text \<open>
  Two runs of zero seconds with one worker in which both timestamps are the same reading
  of the clock. In the first the timer fires before the first poll, so that no Step is
  sent; in the second it fires after one batch of 16 Steps, which the worker processes.
\<close>

definition still_start :: "actor list" where
  "still_start = [Orch, Orch, Orch, Work 0, Work 0, Orch, Orch, Orch, Orch, Orch]"

definition still_stop :: "actor list" where
  "still_stop = [Timer, Orch, Orch, Orch, Work 0, Work 0, Orch, Orch, Orch, Orch]"

definition still_sched :: "actor list" where
  "still_sched = still_start @ still_stop"

definition still_load_sched :: "actor list" where
  "still_load_sched =
     still_start @ [Orch] @ replicate 16 Orch @ [Orch] @ replicate 32 (Work 0) @ still_stop"

definition still_final :: state where
  "still_final =
     \<lparr>pc = Done, workers = [Finished 0], init_q = [], input_q = [], output_q = [],
      timer = Delivered, deadline = 0, now = 0, begin_t = 0, end_t = 0, nb = 0, res = NaN,
      ready_rcvd = [(0, 0)], final_rcvd = [(0, 0)], batches = 0,
      olog = [EGo 0, ESend OpInit, ERecv (0, 0), EGC, EGC, EBegin 0, EAfterFunc 0, EPoll True,
              ESend OpExit, ERecv (0, 0), EEnd 0]\<rparr>"

definition still_load_final :: state where
  "still_load_final =
     \<lparr>pc = Done, workers = [Finished 16], init_q = [], input_q = [], output_q = [],
      timer = Delivered, deadline = 0, now = 0, begin_t = 0, end_t = 0, nb = 16, res = PosInf,
      ready_rcvd = [(0, 0)], final_rcvd = [(0, 16)], batches = 1,
      olog = [EGo 0, ESend OpInit, ERecv (0, 0), EGC, EGC, EBegin 0, EAfterFunc 0, EPoll False]
               @ replicate 16 (ESend OpStep)
               @ [EPoll True, ESend OpExit, ERecv (0, 16), EEnd 0]\<rparr>"

section \<open>Error handling of the sequential functions\<close>

lemma getCPUInfo_AppendResult [simp]:
  "getCPUInfo (e\<lparr>AppendResult := f\<rparr>) = getCPUInfo e"
  by (simp add: getCPUInfo_def)

lemma displayCPUVendorName_AppendResult [simp]:
  "displayCPUVendorName (e\<lparr>AppendResult := f\<rparr>) = displayCPUVendorName e"
  by (simp add: displayCPUVendorName_def)

lemma getCPUInfo_failed:
  assumes "snd (cpu_InfoWithContext e) \<noteq> None \<or> fst (cpu_InfoWithContext e) = []"
  shows "fst (getCPUInfo e) = []"
  using assms
  by (cases "cpu_InfoWithContext e") (auto simp: getCPUInfo_def split: option.splits)

text \<open>
  C7. When \<^verbatim>\<open>AppendResult\<close> fails, \<^verbatim>\<open>runBench\<close> ends exactly as it does when the append
  succeeds: the same outcome (it returns \<^verbatim>\<open>nil\<close> whenever it returns, and never an error),
  and the same lines on standard output, for the same throughput \<open>r\<close>, which was
  computed before the append. The only difference is in the log: the error is passed to
  \<^verbatim>\<open>log.Print\<close>.
\<close>

theorem runBench_append_failure_recoverable:
  assumes "AppendResult e (flagRes fl) (flagWorkers fl) r = Some err"
    and "flagRes fl \<noteq> []"
  shows "snd (runBench_report fl e r)
           = snd (runBench_report fl (e\<lparr>AppendResult := \<lambda>f w x. None\<rparr>) r)
       \<and> stdout_of (fst (runBench_report fl e r))
           = stdout_of (fst (runBench_report fl (e\<lparr>AppendResult := \<lambda>f w x. None\<rparr>) r))
       \<and> (\<forall>err'. snd (runBench_report fl e r) \<noteq> Returns (Some err'))
       \<and> (snd (runBench_report fl e r) = Returns None
            \<longrightarrow> Log_Print [AErr err] \<in> set (fst (runBench_report fl e r)))"
  using assms
  by (cases "displayCPUVendorName e")
     (simp_all add: runBench_report_def Let_def stdout_of_def)

theorem runBench_append_failure_recoverable_witness:
  "snd (runBench_report (flags_default\<lparr>flagRes := ''out.txt''\<rparr>)
          (env_ok\<lparr>AppendResult := \<lambda>f w x. Some (Error ''disk full'')\<rparr>) (Fin 1234))
     = Returns None
   \<and> stdout_of (fst (runBench_report (flags_default\<lparr>flagRes := ''out.txt''\<rparr>)
          (env_ok\<lparr>AppendResult := \<lambda>f w x. Some (Error ''disk full'')\<rparr>) (Fin 1234)))
     = [Fmt_Println [AStr ''Xeon''], Fmt_Printf (''%.6f'' @ [CHR 0x0A]) [AFloat (Fin 1234)]]
   \<and> Log_Print [AErr (Error ''disk full'')]
       \<in> set (fst (runBench_report (flags_default\<lparr>flagRes := ''out.txt''\<rparr>)
          (env_ok\<lparr>AppendResult := \<lambda>f w x. Some (Error ''disk full'')\<rparr>) (Fin 1234)))"
proof -
  let ?fl = "flags_default\<lparr>flagRes := ''out.txt''\<rparr>"
  let ?e = "env_ok\<lparr>AppendResult := \<lambda>f w x. Some (Error ''disk full'')\<rparr>"
  have a: "AppendResult ?e (flagRes ?fl) (flagWorkers ?fl) (Fin 1234) = Some (Error ''disk full'')"
    by simp
  have b: "flagRes ?fl \<noteq> []"
    by simp
  show ?thesis
    using runBench_append_failure_recoverable [OF a b]
    by (simp add: runBench_report_def displayCPUVendorName_def getCPUInfo_def index0_def
        env_ok_def flags_default_def cpu0_def stdout_of_def)
qed

text \<open>A failure of \<^verbatim>\<open>cmd.Run\<close> is what \<^verbatim>\<open>spawnBench\<close> returns.\<close>

lemma spawnBench_Run_error:
  "snd (os_Executable e k) = None \<Longrightarrow> snd (spawnBench fl e k w f) = cmd_Run e k"
  by (cases "os_Executable e k") (simp add: spawnBench_def)

text \<open>
  The loop stops at the first failing \<^verbatim>\<open>cmd.Run\<close>: when the executable path is always
  found and run \<open>k + i\<close> is the first to fail, the loop returns that error after
  \<open>i + 1\<close> calls.
\<close>

lemma spawn_loop_stops_at_Run_error:
  assumes "\<forall>j\<le>i. snd (os_Executable e (k + j)) = None"
    and "\<forall>j<i. cmd_Run e (k + j) = None"
    and "cmd_Run e (k + i) = Some err"
    and "i < n"
  shows "snd (spawn_loop fl e w f n k) = (Some err, Suc (k + i))"
  using assms
proof (induction n arbitrary: k i)
  case 0
  then show ?case by simp
next
  case (Suc n)
  have ex: "snd (os_Executable e k) = None"
    using Suc.prems(1) by (metis add.right_neutral le0)
  then obtain x where x: "os_Executable e k = (x, None)"
    by (cases "os_Executable e k") simp
  show ?case
  proof (cases i)
    case 0
    then show ?thesis
      using Suc.prems(3) x by (simp add: spawnBench_def)
  next
    case (Suc i')
    have r: "cmd_Run e k = None"
      using Suc.prems(2) Suc by (metis add.right_neutral zero_less_Suc)
    have "snd (spawn_loop fl e w f n (Suc k)) = (Some err, Suc (Suc k + i'))"
    proof (rule Suc.IH)
      show "\<forall>j\<le>i'. snd (os_Executable e (Suc k + j)) = None"
        using Suc.prems(1) Suc by (metis add_Suc_shift Suc_le_mono)
      show "\<forall>j<i'. cmd_Run e (Suc k + j) = None"
        using Suc.prems(2) Suc by (metis add_Suc_shift Suc_less_eq)
      show "cmd_Run e (Suc k + i') = Some err"
        using Suc.prems(3) Suc by simp
      show "i' < n"
        using Suc.prems(4) Suc by simp
    qed
    then show ?thesis
      using x r Suc
      by (cases "spawn_loop fl e w f n (Suc k)") (simp add: spawnBench_def)
  qed
qed

text \<open>
  C8. When \<^verbatim>\<open>os.Executable\<close> fails, \<^verbatim>\<open>spawnBench\<close> returns \<^verbatim>\<open>nil\<close> (line 209), so the
  failure to spawn is not propagated: with two iterations per pass, \<^verbatim>\<open>stdBench\<close> makes
  all four calls of \<^verbatim>\<open>spawnBench\<close>, runs no subprocess, returns \<^verbatim>\<open>nil\<close>, and the process
  exits with status 0.
\<close>

theorem stdBench_swallows_Executable_error:
  "spawnBench (flags_default\<lparr>flagNb := 2\<rparr>)
      (env_ok\<lparr>os_Executable := \<lambda>k. ([], Some (Error ''no path''))\<rparr>) 0 1 ''/tmp/cpubench1a-1''
     = ([], None)
   \<and> spawn_loop (flags_default\<lparr>flagNb := 2\<rparr>)
      (env_ok\<lparr>os_Executable := \<lambda>k. ([], Some (Error ''no path''))\<rparr>) 1 ''/tmp/cpubench1a-1'' 2 0
     = ([], None, 2)
   \<and> spawn_loop (flags_default\<lparr>flagNb := 2\<rparr>)
      (env_ok\<lparr>os_Executable := \<lambda>k. ([], Some (Error ''no path''))\<rparr>) 4 ''/tmp/cpubench1a-1'' 2 2
     = ([], None, 4)
   \<and> snd (stdBench (flags_default\<lparr>flagNb := 2\<rparr>)
      (env_ok\<lparr>os_Executable := \<lambda>k. ([], Some (Error ''no path''))\<rparr>)) = Returns None
   \<and> filter is_Cmd_Run (fst (stdBench (flags_default\<lparr>flagNb := 2\<rparr>)
      (env_ok\<lparr>os_Executable := \<lambda>k. ([], Some (Error ''no path''))\<rparr>))) = []
   \<and> exit_status (snd (stdBench (flags_default\<lparr>flagNb := 2\<rparr>)
      (env_ok\<lparr>os_Executable := \<lambda>k. ([], Some (Error ''no path''))\<rparr>))) = 0"
proof -
  let ?fl = "flags_default\<lparr>flagNb := 2\<rparr>"
  let ?e = "env_ok\<lparr>os_Executable := \<lambda>k. ([], Some (Error ''no path''))\<rparr>"
  have sp: "spawnBench ?fl ?e k w f = ([], None)" for k w f
    by (simp add: spawnBench_def)
  have l1: "spawn_loop ?fl ?e w f 2 k = ([], None, Suc (Suc k))" for w f k
    by (simp add: numeral_2_eq_2 sp)
  have d: "displayCPU ?e
             = ([Log_Printf ''CPU: %s / %s'' [AStr ''GenuineIntel'', AStr ''Xeon''],
                 Log_Printf ''Max freq: %.2f mhz (as reported by OS)'' [AFloat (Fin 3000)],
                 Log_Printf ''Cores: %d'' [AInt 1], Log_Printf ''Threads: %d'' [AInt 1],
                 numa_line ?e cpu0, Log_Print []], Returns None)"
    by (simp add: displayCPU_def getCPUInfo_def index0_def env_ok_def cpu0_def)
  have n: "nat (flagNb ?fl) = 2" "flagWorkers ?fl = 4"
      "ioutil_TempFile ?e = (''/tmp/cpubench1a-1'', None)"
    by (simp_all add: flags_default_def env_ok_def)
  have s: "stdBench ?fl ?e
             = ([Log_Println [AStr ''Version: '', AStr ''3.0-dev''], Log_Print []]
                  @ fst (displayCPU ?e)
                  @ [Log_Print [AStr ''Single threaded performance''],
                     Log_Print [AStr ''===========================''],
                     Log_Print [],
                     Log_Print [AStr ''Multi-threaded performance''],
                     Log_Print [AStr ''==========================''],
                     Log_Print [],
                     DisplayResult ''/tmp/cpubench1a-1'' 4, Tmp_Close ''/tmp/cpubench1a-1'',
                     Os_Remove ''/tmp/cpubench1a-1''], Returns None)"
    unfolding stdBench_def Let_def n d l1 by simp
  show ?thesis
    unfolding s d using l1 [of 1 "''/tmp/cpubench1a-1''" 0] l1 [of 4 "''/tmp/cpubench1a-1''" 2]
    by (simp add: sp numa_line_def)
qed

text \<open>
  C9. When the CPU-information query fails in repeated-benchmark mode, \<^verbatim>\<open>displayCPU\<close>
  returns the error, and \<^verbatim>\<open>stdBench\<close> answers it with \<^verbatim>\<open>return nil\<close> (line 168): no
  benchmark is run and the process exits with status 0.
\<close>

theorem stdBench_CPU_failure_exits_0:
  "displayCPU (env_ok\<lparr>cpu_InfoWithContext := ([], Some (Error ''no cpu info''))\<rparr>)
     = ([], Returns (Some (Error ''no cpu info'')))
   \<and> stdBench flags_default (env_ok\<lparr>cpu_InfoWithContext := ([], Some (Error ''no cpu info''))\<rparr>)
     = ([Log_Println [AStr ''Version: '', AStr ''3.0-dev''], Log_Print []], Returns None)
   \<and> exit_status (snd (stdBench flags_default
        (env_ok\<lparr>cpu_InfoWithContext := ([], Some (Error ''no cpu info''))\<rparr>))) = 0"
proof -
  let ?e = "env_ok\<lparr>cpu_InfoWithContext := ([], Some (Error ''no cpu info''))\<rparr>"
  have d: "displayCPU ?e = ([], Returns (Some (Error ''no cpu info'')))"
    by (simp add: displayCPU_def getCPUInfo_def)
  show ?thesis
    unfolding d by (simp add: stdBench_def d)
qed

text \<open>
  C10. \<^verbatim>\<open>displayCPUVendorName\<close> drops the error of \<^verbatim>\<open>getCPUInfo\<close> and reads element 0 of
  the slice. Whenever the query fails (the slice is then \<^verbatim>\<open>nil\<close>) or answers with an empty
  slice, the function panics with an index out of range; in single-iteration mode
  without \<^verbatim>\<open>-debug\<close> the report of \<^verbatim>\<open>runBench\<close> panics with it and nothing reaches
  standard output.
\<close>

theorem displayCPUVendorName_panics:
  assumes "snd (cpu_InfoWithContext e) \<noteq> None \<or> fst (cpu_InfoWithContext e) = []"
    and "\<not> flagDebug fl"
  shows "displayCPUVendorName e = Panics IndexOutOfRange
       \<and> snd (runBench_report fl e r) = Panics IndexOutOfRange
       \<and> stdout_of (fst (runBench_report fl e r)) = []"
proof -
  have "fst (getCPUInfo e) = []"
    using assms(1) by (rule getCPUInfo_failed)
  then have p: "displayCPUVendorName e = Panics IndexOutOfRange"
    by (cases "getCPUInfo e") (simp add: displayCPUVendorName_def index0_def)
  then show ?thesis
    using assms(2) by (simp add: runBench_report_def Let_def stdout_of_def)
qed

theorem displayCPUVendorName_panics_witness:
  "displayCPUVendorName (env_ok\<lparr>cpu_InfoWithContext := ([cpu0], Some (Error ''no cpu info''))\<rparr>)
     = Panics IndexOutOfRange
   \<and> snd (runBench_report flags_default
        (env_ok\<lparr>cpu_InfoWithContext := ([cpu0], Some (Error ''no cpu info''))\<rparr>) (Fin 1234))
     = Panics IndexOutOfRange
   \<and> displayCPUVendorName (env_ok\<lparr>cpu_InfoWithContext := ([], None)\<rparr>)
     = Panics IndexOutOfRange"
proof -
  let ?e1 = "env_ok\<lparr>cpu_InfoWithContext := ([cpu0], Some (Error ''no cpu info''))\<rparr>"
  let ?e2 = "env_ok\<lparr>cpu_InfoWithContext := ([], None)\<rparr>"
  have a1: "snd (cpu_InfoWithContext ?e1) \<noteq> None \<or> fst (cpu_InfoWithContext ?e1) = []"
    by simp
  have a2: "snd (cpu_InfoWithContext ?e2) \<noteq> None \<or> fst (cpu_InfoWithContext ?e2) = []"
    by simp
  have b: "\<not> flagDebug flags_default"
    by (simp add: flags_default_def)
  show ?thesis
    using displayCPUVendorName_panics [OF a1 b, of "Fin 1234"]
      displayCPUVendorName_panics [OF a2 b, of "Fin 1234"]
    by simp
qed

text \<open>
  C6. \<^verbatim>\<open>measureFreq\<close> calls \<^verbatim>\<open>CountASM\<close> exactly twice, both times with \<open>NFREQ\<close>;
  the first call comes before any reading of the clock, the second between the two
  readings, and the trace ends with the log of the frequency. Whenever the clock has
  advanced between the readings, the frequency logged is the specification's formula:
  \<open>NFREQ / 1024 * ASMLoopCycles\<close> divided by the elapsed seconds and by \<open>10^9\<close>
  (\<^verbatim>\<open>float64\<close> arithmetic without rounding).
\<close>

theorem measureFreq_warm_up_then_timed:
  "filter is_CountASM (fst (measureFreq N C t t2)) = [CountASM N, CountASM N]
   \<and> (\<exists>a b. fst (measureFreq N C t t2)
              = a @ CountASM N # b @ [Time_Now t, CountASM N, Time_Now t2,
                  Log_Println [AStr ''Frequency:'', AFloat (measured_frequency N C t t2), AStr ''GHz'']]
            \<and> filter is_Time_Now (a @ b) = [])
   \<and> snd (measureFreq N C t t2) = None
   \<and> (\<forall>c. C = Fin c \<and> t < t2 \<longrightarrow>
         measured_frequency N C t t2
           = Fin (spec_frequency_GHz (real_of_int N) c (real_of_int (t2 - t) / 1000000000)))"
proof (intro conjI allI impI)
  show "filter is_CountASM (fst (measureFreq N C t t2)) = [CountASM N, CountASM N]"
    by (simp add: measureFreq_def)
  show "\<exists>a b. fst (measureFreq N C t t2)
              = a @ CountASM N # b @ [Time_Now t, CountASM N, Time_Now t2,
                  Log_Println [AStr ''Frequency:'', AFloat (measured_frequency N C t t2), AStr ''GHz'']]
            \<and> filter is_Time_Now (a @ b) = []"
    by (intro exI [of _ "[Log_Println [AStr ''Version:'', AStr ''3.0-dev''],
                          Log_Println [AStr ''Warming-up CPU'']]"]
        exI [of _ "[Log_Println [AStr ''Measuring ...'']]"]) (simp add: measureFreq_def)
  show "snd (measureFreq N C t t2) = None"
    by (simp add: measureFreq_def)
  show "measured_frequency N C t t2
          = Fin (spec_frequency_GHz (real_of_int N) c (real_of_int (t2 - t) / 1000000000))"
    if "C = Fin c \<and> t < t2" for c
    using that by (simp add: measured_frequency_def spec_frequency_GHz_def f64_of_int_def)
qed

theorem measureFreq_warm_up_then_timed_witness:
  "filter is_CountASM (fst (measureFreq 2048 (Fin 1026) 0 1000)) = [CountASM 2048, CountASM 2048]
   \<and> measured_frequency 2048 (Fin 1026) 0 1000 = Fin (513 / 250)
   \<and> spec_frequency_GHz 2048 1026 (1000 / 1000000000) = 513 / 250"
proof -
  have h: "Fin 1026 = Fin 1026 \<and> (0::int) < 1000"
    by simp
  show ?thesis
    using measureFreq_warm_up_then_timed [of 2048 "Fin 1026" 0 1000, THEN conjunct1]
      measureFreq_warm_up_then_timed [of 2048 "Fin 1026" 0 1000, THEN conjunct2,
        THEN conjunct2, THEN conjunct2, rule_format, OF h]
    by (simp add: spec_frequency_GHz_def)
qed

section \<open>The single iteration: proofs\<close>

text \<open>The log and the variables of \<^verbatim>\<open>runBench\<close>: preserved by every step.\<close>

lemma spawn_log_0 [simp]: "spawn_log 0 = []"
  by (simp add: spawn_log_def)

lemma spawn_log_Suc: "spawn_log (Suc i) = spawn_log i @ [EGo i, ESend OpInit]"
  by (simp add: spawn_log_def)

lemma loop_log_0 [simp]: "loop_log W 0 = []"
  by (simp add: loop_log_def)

lemma loop_log_Suc: "loop_log W (Suc n) = loop_log W n @ batch_log (W * 16)"
proof -
  have "replicate (Suc n) (batch_log (W * 16))
          = replicate n (batch_log (W * 16)) @ [batch_log (W * 16)]"
    by (simp add: replicate_append_same)
  then show ?thesis
    unfolding loop_log_def by (simp del: replicate_Suc)
qed

lemma batch_log_Suc: "batch_log (Suc i) = batch_log i @ [ESend OpStep]"
  by (simp add: batch_log_def replicate_append_same)

lemma batch_log_0: "batch_log 0 = [EPoll False]"
  by (simp add: batch_log_def)

lemma orch_inv_init: "orch_inv W D init_state"
  by (simp add: orch_inv_def init_state_def)

lemma orch_inv_orch:
  assumes "orch_inv W D s" and "orch_step W D s = Some s'"
  shows "orch_inv W D s'"
proof (cases "pc s")
  case (Spawn i)
  then show ?thesis
    using assms by (auto simp: orch_inv_def orch_step_def split: if_splits)
next
  case (SendInit i)
  then show ?thesis
    using assms by (auto simp: orch_inv_def orch_step_def spawn_log_Suc split: if_splits)
next
  case (Barrier k)
  then show ?thesis
    using assms by (auto simp: orch_inv_def orch_step_def split: if_splits list.splits)
next
  case GC
  then show ?thesis
    using assms by (auto simp: orch_inv_def orch_step_def)
next
  case Begin
  then show ?thesis
    using assms by (auto simp: orch_inv_def orch_step_def)
next
  case Arm
  then show ?thesis
    using assms by (auto simp: orch_inv_def orch_step_def start_log_def)
next
  case Select
  then show ?thesis
    using assms by (auto simp: orch_inv_def orch_step_def start_log_def batch_log_0 split: if_splits)
next
  case (Batch i)
  then show ?thesis
    using assms
    by (auto simp: orch_inv_def orch_step_def start_log_def batch_log_Suc loop_log_Suc
        split: if_splits)
next
  case (SendExit k)
  then show ?thesis
    using assms
    by (auto simp: orch_inv_def orch_step_def start_log_def stop_log_def replicate_append_same
        split: if_splits)
next
  case (Collect k)
  then show ?thesis
    using assms
    by (auto simp: orch_inv_def orch_step_def start_log_def stop_log_def
        split: if_splits list.splits)
next
  case End
  then show ?thesis
    using assms by (auto simp: orch_inv_def orch_step_def start_log_def stop_log_def)
next
  case Compute
  then show ?thesis
    using assms by (auto simp: orch_inv_def orch_step_def start_log_def stop_log_def)
next
  case Done
  then show ?thesis
    using assms by (auto simp: orch_inv_def orch_step_def)
qed

lemma worker_step_frame:
  assumes "worker_step W j s = Some s'"
  shows "pc s' = pc s \<and> olog s' = olog s \<and> ready_rcvd s' = ready_rcvd s
       \<and> final_rcvd s' = final_rcvd s \<and> batches s' = batches s \<and> nb s' = nb s
       \<and> res s' = res s \<and> begin_t s' = begin_t s \<and> end_t s' = end_t s
       \<and> timer s' = timer s \<and> deadline s' = deadline s \<and> now s' = now s
       \<and> length (workers s') = length (workers s)"
  using assms
  by (auto simp: worker_step_def split: if_splits worker.splits list.splits WorkerOp.splits)

lemma timer_step_frame:
  assumes "timer_step s = Some s'"
  shows "s' = s\<lparr>timer := Fired\<rparr> \<and> timer s = Armed \<and> deadline s \<le> now s"
  using assms by (auto simp: timer_step_def split: if_splits)

lemma pc_inv_frame:
  assumes "pc_inv W s p"
    and "ready_rcvd s' = ready_rcvd s" and "final_rcvd s' = final_rcvd s"
    and "batches s' = batches s" and "nb s' = nb s" and "res s' = res s"
    and "begin_t s' = begin_t s" and "end_t s' = end_t s"
    and "length (workers s') = length (workers s)"
  shows "pc_inv W s' p"
  using assms by (cases p) simp_all

lemma expected_log_frame:
  assumes "ready_rcvd s' = ready_rcvd s" and "final_rcvd s' = final_rcvd s"
    and "batches s' = batches s" and "begin_t s' = begin_t s" and "end_t s' = end_t s"
  shows "expected_log W D s' p = expected_log W D s p"
  using assms by (cases p) (simp_all add: start_log_def stop_log_def)

lemma orch_inv_frame:
  assumes "orch_inv W D s" and "pc s' = pc s" and "olog s' = olog s"
    and "ready_rcvd s' = ready_rcvd s" and "final_rcvd s' = final_rcvd s"
    and "batches s' = batches s" and "nb s' = nb s" and "res s' = res s"
    and "begin_t s' = begin_t s" and "end_t s' = end_t s"
    and "length (workers s') = length (workers s)"
  shows "orch_inv W D s'"
proof -
  have "pc_inv W s (pc s)"
    using assms(1) by (simp add: orch_inv_def)
  then have "pc_inv W s' (pc s)"
    using assms(4-11) by (rule pc_inv_frame)
  moreover have "expected_log W D s' (pc s) = expected_log W D s (pc s)"
    using assms(4,5,6,9,10) by (rule expected_log_frame)
  ultimately show ?thesis
    using assms(1,2,3) by (simp add: orch_inv_def)
qed

lemma orch_inv_exec:
  assumes "orch_inv W D s" and "exec W D a s = Some s'"
  shows "orch_inv W D s'"
proof (cases a)
  case Orch
  then show ?thesis
    using assms orch_inv_orch by simp
next
  case (Work j)
  then have "worker_step W j s = Some s'"
    using assms by simp
  from worker_step_frame [OF this] show ?thesis
    by (intro orch_inv_frame [OF assms(1)]) simp_all
next
  case Timer
  then have s': "s' = s\<lparr>timer := Fired\<rparr>"
    using assms timer_step_frame by simp
  show ?thesis
    by (rule orch_inv_frame [OF assms(1)]) (simp_all add: s')
next
  case Tick
  then have s': "s' = s\<lparr>now := now s + 1\<rparr>"
    using assms by (simp add: tick_def)
  show ?thesis
    by (rule orch_inv_frame [OF assms(1)]) (simp_all add: s')
qed

text \<open>The timer and the clock.\<close>

lemma timer_inv_init: "timer_inv D init_state"
  by (simp add: timer_inv_def init_state_def)

lemma timer_inv_exec:
  assumes "timer_inv D s" and "exec W D a s = Some s'"
  shows "timer_inv D s'"
proof (cases a)
  case Orch
  then have "orch_step W D s = Some s'"
    using assms by simp
  then show ?thesis
    using assms(1)
    by (cases "pc s")
       (auto simp: timer_inv_def orch_step_def split: if_splits list.splits)
next
  case (Work j)
  then have "worker_step W j s = Some s'"
    using assms by simp
  from worker_step_frame [OF this] show ?thesis
    using assms(1) unfolding timer_inv_def by (cases "pc s") simp_all
next
  case Timer
  then have "s' = s\<lparr>timer := Fired\<rparr> \<and> timer s = Armed \<and> deadline s \<le> now s"
    using assms timer_step_frame by simp
  then show ?thesis
    using assms(1) unfolding timer_inv_def by (cases "pc s") simp_all
next
  case Tick
  then have "s' = s\<lparr>now := now s + 1\<rparr>"
    using assms by (simp add: tick_def)
  then show ?thesis
    using assms(1) unfolding timer_inv_def by (cases "pc s") auto
qed

text \<open>The laws of conservation.\<close>

lemma sum_list_map_update:
  fixes f :: "'a \<Rightarrow> nat"
  assumes "j < length ws"
  shows "sum_list (map f (ws[j := w])) + f (ws ! j) = sum_list (map f ws) + f w"
  using assms
proof (induction ws arbitrary: j)
  case Nil
  then show ?case by simp
next
  case (Cons a ws)
  then show ?case
    by (cases j) (simp_all add: add.assoc add.left_commute)
qed

lemma count_op_simps [simp]:
  "count_op c [] = 0"
  "count_op c (x # q) = (if x = c then Suc (count_op c q) else count_op c q)"
  "count_op c (q @ [x]) = (if x = c then Suc (count_op c q) else count_op c q)"
  by (simp_all add: count_op_def)

lemma count_inv_init: "count_inv W init_state"
  by (simp add: count_inv_def init_state_def)

lemma count_inv_orch:
  assumes "count_inv W s" and "orch_inv W D s" and "orch_step W D s = Some s'"
  shows "count_inv W s'"
proof (cases "pc s")
  case (Spawn i)
  then show ?thesis
    using assms by (auto simp: count_inv_def orch_inv_def orch_step_def split: if_splits)
next
  case (SendInit i)
  then show ?thesis
    using assms by (auto simp: count_inv_def orch_inv_def orch_step_def split: if_splits)
next
  case (Barrier k)
  then show ?thesis
    using assms
    by (auto simp: count_inv_def orch_inv_def orch_step_def split: if_splits list.splits)
next
  case GC
  then show ?thesis
    using assms by (auto simp: count_inv_def orch_inv_def orch_step_def)
next
  case Begin
  then show ?thesis
    using assms by (auto simp: count_inv_def orch_inv_def orch_step_def)
next
  case Arm
  then show ?thesis
    using assms by (auto simp: count_inv_def orch_inv_def orch_step_def)
next
  case Select
  then show ?thesis
    using assms by (auto simp: count_inv_def orch_inv_def orch_step_def split: if_splits)
next
  case (Batch i)
  then show ?thesis
    using assms by (auto simp: count_inv_def orch_inv_def orch_step_def split: if_splits)
next
  case (SendExit k)
  then show ?thesis
    using assms by (auto simp: count_inv_def orch_inv_def orch_step_def split: if_splits)
next
  case (Collect k)
  then show ?thesis
    using assms
    by (auto simp: count_inv_def orch_inv_def orch_step_def split: if_splits list.splits)
next
  case End
  then show ?thesis
    using assms by (auto simp: count_inv_def orch_inv_def orch_step_def)
next
  case Compute
  then show ?thesis
    using assms by (auto simp: count_inv_def orch_inv_def orch_step_def)
next
  case Done
  then show ?thesis
    using assms by (auto simp: count_inv_def orch_inv_def orch_step_def)
qed

lemma count_inv_worker:
  assumes "count_inv W s" and "worker_step W j s = Some s'"
  shows "count_inv W s'"
proof -
  have j: "j < length (workers s)"
    using assms(2) by (auto simp: worker_step_def split: if_splits)
  note upd = sum_list_map_update [OF j, of inits_taken] sum_list_map_update [OF j, of ready_sent]
    sum_list_map_update [OF j, of exited] sum_list_map_update [OF j, of finished]
    sum_list_map_update [OF j, of begun]
  show ?thesis
  proof (cases "workers s ! j")
    case WaitInit
    then show ?thesis
      using assms j upd [of Ready]
      by (auto simp: count_inv_def worker_step_def split: list.splits)
  next
    case Ready
    then show ?thesis
      using assms j upd [of "Running 0"]
      by (auto simp: count_inv_def worker_step_def split: if_splits)
  next
    case (Running c)
    then show ?thesis
      using assms j upd [of "Working c"] upd [of "Exiting c"]
      by (auto simp: count_inv_def worker_step_def split: list.splits WorkerOp.splits if_splits)
  next
    case (Working c)
    then show ?thesis
      using assms j upd [of "Running (Suc c)"]
      by (auto simp: count_inv_def worker_step_def)
  next
    case (Exiting c)
    then show ?thesis
      using assms j upd [of "Finished c"]
      by (auto simp: count_inv_def worker_step_def split: if_splits)
  next
    case (Finished c)
    then show ?thesis
      using assms j by (simp add: worker_step_def)
  qed
qed

lemma count_inv_exec:
  assumes "count_inv W s" and "orch_inv W D s" and "exec W D a s = Some s'"
  shows "count_inv W s'"
proof (cases a)
  case Orch
  then show ?thesis
    using assms count_inv_orch by simp
next
  case (Work j)
  then show ?thesis
    using assms count_inv_worker by simp
next
  case Timer
  then show ?thesis
    using assms by (auto simp: timer_step_def count_inv_def split: if_splits)
next
  case Tick
  then show ?thesis
    using assms by (auto simp: tick_def count_inv_def)
qed

text \<open>The phases. The step out of the barrier is the one that needs an argument.\<close>

lemma phase_inv_init: "phase_inv W init_state"
  by (simp add: phase_inv_def init_state_def ready_from_def)

lemma sum_list_map_le_length:
  fixes f :: "'a \<Rightarrow> nat"
  assumes "\<forall>w \<in> set ws. f w \<le> 1"
  shows "sum_list (map f ws) \<le> length ws"
  using assms by (induction ws) auto

lemma sum_list_map_eq_length:
  fixes f :: "'a \<Rightarrow> nat"
  assumes "\<forall>w \<in> set ws. f w \<le> 1" and "sum_list (map f ws) = length ws"
  shows "\<forall>w \<in> set ws. f w = 1"
  using assms
proof (induction ws)
  case Nil
  then show ?case by simp
next
  case (Cons a ws)
  have le: "sum_list (map f ws) \<le> length ws"
    using Cons.prems(1) by (intro sum_list_map_le_length) simp
  have a: "f a \<le> 1"
    using Cons.prems(1) by simp
  have "f a + sum_list (map f ws) = Suc (length ws)"
    using Cons.prems(2) by simp
  then have "f a = 1" "sum_list (map f ws) = length ws"
    using le a by linarith+
  then show ?case
    using Cons by simp
qed

lemma sum_list_map_all_0:
  fixes f :: "'a \<Rightarrow> nat"
  assumes "\<forall>w \<in> set ws. f w = 0"
  shows "sum_list (map f ws) = 0"
  using assms by (induction ws) auto

lemma sum_list_map_all_1:
  fixes f :: "'a \<Rightarrow> nat"
  assumes "\<forall>w \<in> set ws. f w = 1"
  shows "sum_list (map f ws) = length ws"
  using assms by (induction ws) auto

lemma ready_sent_le_1: "ready_sent w \<le> 1"
  by (cases w) simp_all

lemma fresh_finished_0: "fresh w \<Longrightarrow> finished w = 0"
  by (cases w) simp_all

lemma fresh_ready_sent: "fresh w \<Longrightarrow> ready_sent w = 1 \<Longrightarrow> w = Running 0"
  by (cases w) simp_all

lemma all_Running_0_alive:
  "set ws \<subseteq> {Running 0} \<Longrightarrow> \<forall>w \<in> set ws. alive w"
  by auto

lemma all_alive_started:
  "\<forall>w \<in> set ws. alive w \<Longrightarrow> \<forall>w \<in> set ws. started w"
  by (metis alive.elims(2) started.simps(3) started.simps(4))

text \<open>The barrier is complete: every worker has reported and the channels are empty.\<close>

lemma barrier_complete:
  assumes c: "count_inv W s" and f: "\<forall>w \<in> set (workers s). fresh w"
    and l: "length (workers s) = W" "length (ready_rcvd s) = W" "final_rcvd s = []"
    and i: "inits_sent W (pc s) = W"
  shows "set (workers s) \<subseteq> {Running 0} \<and> output_q s = [] \<and> init_q s = []"
proof -
  have fin: "sum_list (map finished (workers s)) = 0"
    using f by (intro sum_list_map_all_0) (simp add: fresh_finished_0)
  have r1: "\<forall>w \<in> set (workers s). ready_sent w \<le> 1"
    using ready_sent_le_1 by blast
  have le: "sum_list (map ready_sent (workers s)) \<le> W"
    using sum_list_map_le_length [OF r1] l(1) by simp
  have eq: "W + length (output_q s) = sum_list (map ready_sent (workers s))"
    using c l fin by (simp add: count_inv_def)
  then have "length (output_q s) = 0"
    and rs: "sum_list (map ready_sent (workers s)) = length (workers s)"
    using le l(1) by linarith+
  then have o: "output_q s = []"
    by simp
  have "\<forall>w \<in> set (workers s). ready_sent w = 1"
    using sum_list_map_eq_length [OF r1 rs] .
  then have r: "set (workers s) \<subseteq> {Running 0}"
    using f fresh_ready_sent by blast
  then have "\<forall>w \<in> set (workers s). inits_taken w = 1"
    by auto
  then have "sum_list (map inits_taken (workers s)) = W"
    using sum_list_map_all_1 l(1) by blast
  then have "init_q s = []"
    using c i by (simp add: count_inv_def)
  then show ?thesis
    using o r by simp
qed

lemma ready_from_msgs:
  "ready_from ws ms \<Longrightarrow> length ws = W \<Longrightarrow> ready_msgs W ms"
  by (auto simp: ready_from_def ready_msgs_def)

lemma ready_from_append_worker:
  "ready_from ws ms \<Longrightarrow> ready_from (ws @ [w]) ms"
  by (auto simp: ready_from_def nth_append)

lemma ready_from_rotate:
  "ready_from ws (rr @ v # q) \<Longrightarrow> ready_from ws ((rr @ [v]) @ q)"
  by (auto simp: ready_from_def)

lemma final_from_rotate:
  "final_from ws (rr @ v # q) \<Longrightarrow> final_from ws ((rr @ [v]) @ q)"
  by (auto simp: final_from_def)

lemma phase_inv_orch:
  assumes "phase_inv W s" and "count_inv W s" and "orch_inv W D s"
    and "orch_step W D s = Some s'"
  shows "phase_inv W s'"
proof (cases "pc s")
  case (Spawn i)
  then show ?thesis
    using assms
    by (auto simp: phase_inv_def orch_step_def orch_inv_def ready_from_append_worker
        split: if_splits)
next
  case (SendInit i)
  then show ?thesis
    using assms by (auto simp: phase_inv_def orch_step_def split: if_splits)
next
  case (Barrier k)
  show ?thesis
  proof (cases "k < length (workers s)")
    case True
    then show ?thesis
      using assms Barrier ready_from_rotate [of "workers s" "ready_rcvd s"]
      by (auto simp: phase_inv_def orch_step_def split: list.splits)
  next
    case False
    then have s': "s' = s\<lparr>pc := GC\<rparr>"
      using assms Barrier by (simp add: orch_step_def)
    have l: "length (workers s) = W" "length (ready_rcvd s) = W" "final_rcvd s = []"
      using assms(3) Barrier False by (auto simp: orch_inv_def)
    have f: "\<forall>w \<in> set (workers s). fresh w"
      and rf: "ready_from (workers s) (ready_rcvd s @ output_q s)" and inp: "input_q s = []"
      using assms(1) Barrier by (auto simp: phase_inv_def)
    have bc: "set (workers s) \<subseteq> {Running 0} \<and> output_q s = [] \<and> init_q s = []"
      using barrier_complete [OF assms(2) f l] Barrier by simp
    then have "ready_msgs W (ready_rcvd s)"
      using rf l(1) ready_from_msgs by fastforce
    then show ?thesis
      using bc inp by (simp add: phase_inv_def s')
  qed
next
  case GC
  then show ?thesis
    using assms by (auto simp: phase_inv_def orch_step_def)
next
  case Begin
  then show ?thesis
    using assms by (auto simp: phase_inv_def orch_step_def)
next
  case Arm
  then show ?thesis
    using assms all_Running_0_alive [of "workers s"]
    by (auto simp: phase_inv_def orch_step_def)
next
  case Select
  then show ?thesis
    using assms all_alive_started [of "workers s"]
    by (auto simp: phase_inv_def orch_step_def orch_inv_def final_from_def split: if_splits)
next
  case (Batch i)
  then show ?thesis
    using assms by (auto simp: phase_inv_def orch_step_def split: if_splits)
next
  case (SendExit k)
  then show ?thesis
    using assms by (auto simp: phase_inv_def orch_step_def split: if_splits)
next
  case (Collect k)
  then show ?thesis
    using assms final_from_rotate [of "workers s" "final_rcvd s"]
    by (auto simp: phase_inv_def orch_step_def split: if_splits list.splits)
next
  case End
  then show ?thesis
    using assms by (auto simp: phase_inv_def orch_step_def)
next
  case Compute
  then show ?thesis
    using assms by (auto simp: phase_inv_def orch_step_def)
next
  case Done
  then show ?thesis
    using assms by (auto simp: phase_inv_def orch_step_def)
qed

text \<open>The phases under a step of a worker.\<close>

lemma in_set_updateD:
  "w' \<in> set (ws[j := w]) \<Longrightarrow> w' = w \<or> w' \<in> set ws"
  using set_update_subset_insert [of ws j w] by auto

lemma all_update:
  "\<forall>w' \<in> set ws. P w' \<Longrightarrow> P w \<Longrightarrow> \<forall>w' \<in> set (ws[j := w]). P w'"
  using in_set_updateD by metis

lemma ready_from_update:
  assumes "ready_from ws ms" and "ws ! j \<noteq> Running 0"
  shows "ready_from (ws[j := w]) ms"
proof -
  have "(ws[j := w]) ! fst m = ws ! fst m" if "m \<in> set ms" for m
  proof -
    have "ws ! fst m = Running 0"
      using that assms(1) by (simp add: ready_from_def)
    then have "fst m \<noteq> j"
      using assms(2) by auto
    then show ?thesis
      by simp
  qed
  then show ?thesis
    using assms(1) by (simp add: ready_from_def)
qed

lemma ready_from_send:
  assumes "ready_from ws ms" and "ws ! j \<noteq> Running 0" and "j < length ws"
  shows "ready_from (ws[j := Running 0]) (ms @ [(j, 0)])"
proof -
  have "j \<notin> fst ` set ms"
  proof
    assume "j \<in> fst ` set ms"
    then obtain m where "m \<in> set ms" "fst m = j"
      by auto
    then have "ws ! j = Running 0"
      using assms(1) by (auto simp: ready_from_def)
    then show False
      using assms(2) by simp
  qed
  moreover have "ready_from (ws[j := Running 0]) ms"
    using assms(1,2) by (rule ready_from_update)
  ultimately show ?thesis
    using assms(3) by (simp add: ready_from_def)
qed

lemma final_from_update:
  assumes "final_from ws ms" and "finished (ws ! j) = 0"
  shows "final_from (ws[j := w]) ms"
proof -
  have "(ws[j := w]) ! fst m = ws ! fst m" if "m \<in> set ms" for m
  proof -
    have "ws ! fst m = Finished (nat (snd m))"
      using that assms(1) by (simp add: final_from_def)
    then have "fst m \<noteq> j"
      using assms(2) by auto
    then show ?thesis
      by simp
  qed
  then show ?thesis
    using assms(1) by (simp add: final_from_def)
qed

lemma final_from_send:
  assumes "final_from ws ms" and "finished (ws ! j) = 0" and "j < length ws"
  shows "final_from (ws[j := Finished c]) (ms @ [(j, int c)])"
proof -
  have "j \<notin> fst ` set ms"
  proof
    assume "j \<in> fst ` set ms"
    then obtain m where "m \<in> set ms" "fst m = j"
      by auto
    then have "ws ! j = Finished (nat (snd m))"
      using assms(1) by (auto simp: final_from_def)
    then show False
      using assms(2) by simp
  qed
  moreover have "final_from (ws[j := Finished c]) ms"
    using assms(1,2) by (rule final_from_update)
  ultimately show ?thesis
    using assms(3) by (simp add: final_from_def)
qed

lemma phase_ok_update:
  assumes "phase_ok W s ph" and "j < length (workers s)"
    and "workers s' = (workers s)[j := w]"
    and "ready_rcvd s' = ready_rcvd s" and "final_rcvd s' = final_rcvd s"
    and "ph = Starting \<Longrightarrow>
           fresh w \<and> input_q s' = []
           \<and> ready_from (workers s') (ready_rcvd s @ output_q s')"
    and "ph = Idle \<Longrightarrow>
           w = Running 0 \<and> input_q s' = [] \<and> output_q s' = [] \<and> init_q s' = []"
    and "ph = Loading \<Longrightarrow> alive w \<and> output_q s' = [] \<and> init_q s' = []"
    and "ph = Stopping \<Longrightarrow>
           started w \<and> init_q s' = []
           \<and> final_from (workers s') (final_rcvd s @ output_q s')"
  shows "phase_ok W s' ph"
proof (cases ph)
  case Starting
  have "\<forall>w' \<in> set (workers s). fresh w'"
    using assms(1) Starting by simp
  moreover have "fresh w"
    using assms(6) Starting by simp
  ultimately have "\<forall>w' \<in> set ((workers s)[j := w]). fresh w'"
    by (rule all_update)
  then show ?thesis
    using Starting assms(3,4,6) by simp
next
  case Idle
  have "set (workers s) \<subseteq> {Running 0}"
    using assms(1) Idle by simp
  moreover have "w = Running 0"
    using assms(7) Idle by simp
  ultimately have "set ((workers s)[j := w]) \<subseteq> {Running 0}"
    using set_update_subset_insert [of "workers s" j w] by blast
  moreover have "ready_msgs W (ready_rcvd s)"
    using assms(1) Idle by simp
  ultimately show ?thesis
    using Idle assms(3,4,7) by simp
next
  case Loading
  have "\<forall>w' \<in> set (workers s). alive w'"
    using assms(1) Loading by simp
  moreover have "alive w"
    using assms(8) Loading by simp
  ultimately have "\<forall>w' \<in> set ((workers s)[j := w]). alive w'"
    by (rule all_update)
  moreover have "ready_msgs W (ready_rcvd s)"
    using assms(1) Loading by simp
  ultimately show ?thesis
    using Loading assms(3,4,8) by simp
next
  case Stopping
  have "\<forall>w' \<in> set (workers s). started w'"
    using assms(1) Stopping by simp
  moreover have "started w"
    using assms(9) Stopping by simp
  ultimately have "\<forall>w' \<in> set ((workers s)[j := w]). started w'"
    by (rule all_update)
  moreover have "ready_msgs W (ready_rcvd s)"
    using assms(1) Stopping by simp
  ultimately show ?thesis
    using Stopping assms(3,4,5,9) by simp
qed

lemma phase_inv_worker:
  assumes p: "phase_inv W s" and c: "count_inv W s" and st: "worker_step W j s = Some s'"
  shows "phase_inv W s'"
proof -
  have j: "j < length (workers s)"
    using st by (auto simp: worker_step_def split: if_splits)
  then have mem: "workers s ! j \<in> set (workers s)"
    by simp
  have pc: "pc s' = pc s"
    using worker_step_frame [OF st] by simp
  let ?ph = "phase_of (pc s)"
  have ok: "phase_ok W s ?ph"
    using p by (simp add: phase_inv_def)
  have "phase_ok W s' ?ph"
  proof (cases "workers s ! j")
    case WaitInit
    then obtain x q where s': "s' = s\<lparr>init_q := q, workers := (workers s)[j := Ready]\<rparr>"
      using st j by (auto simp: worker_step_def split: list.splits)
    have n: "workers s ! j \<noteq> Running 0" "\<not> alive (workers s ! j)" "\<not> started (workers s ! j)"
      using WaitInit by simp_all
    show ?thesis
    proof (rule phase_ok_update [OF ok j, of s' Ready])
      show "?ph = Starting \<Longrightarrow>
            fresh Ready \<and> input_q s' = []
            \<and> ready_from (workers s') (ready_rcvd s @ output_q s')"
        using ok n(1) by (simp add: s' ready_from_update)
      show "?ph = Idle \<Longrightarrow>
            Ready = Running 0 \<and> input_q s' = [] \<and> output_q s' = [] \<and> init_q s' = []"
        using ok mem n(1) by auto
      show "?ph = Loading \<Longrightarrow> alive Ready \<and> output_q s' = [] \<and> init_q s' = []"
        using ok mem n(2) by auto
      show "?ph = Stopping \<Longrightarrow>
            started Ready \<and> init_q s' = []
            \<and> final_from (workers s') (final_rcvd s @ output_q s')"
        using ok mem n(3) by auto
    qed (simp_all add: s')
  next
    case Ready
    then have s': "s' = s\<lparr>output_q := output_q s @ [(j, 0)],
                           workers := (workers s)[j := Running 0]\<rparr>"
      using st j by (auto simp: worker_step_def split: if_splits)
    have n: "workers s ! j \<noteq> Running 0" "\<not> alive (workers s ! j)" "\<not> started (workers s ! j)"
      using Ready by simp_all
    show ?thesis
    proof (rule phase_ok_update [OF ok j, of s' "Running 0"])
      show "?ph = Starting \<Longrightarrow>
            fresh (Running 0) \<and> input_q s' = []
            \<and> ready_from (workers s') (ready_rcvd s @ output_q s')"
        using ok n(1) j ready_from_send [of "workers s" "ready_rcvd s @ output_q s" j]
        by (simp add: s')
      show "?ph = Idle \<Longrightarrow>
            Running 0 = Running 0 \<and> input_q s' = [] \<and> output_q s' = [] \<and> init_q s' = []"
        using ok mem n(1) by auto
      show "?ph = Loading \<Longrightarrow> alive (Running 0) \<and> output_q s' = [] \<and> init_q s' = []"
        using ok mem n(2) by auto
      show "?ph = Stopping \<Longrightarrow>
            started (Running 0) \<and> init_q s' = []
            \<and> final_from (workers s') (final_rcvd s @ output_q s')"
        using ok mem n(3) by auto
    qed (simp_all add: s')
  next
    case (Running k)
    then obtain x q where inp: "input_q s = x # q"
      using st j by (auto simp: worker_step_def split: list.splits)
    have fin: "finished (workers s ! j) = 0"
      using Running by simp
    show ?thesis
    proof (cases x)
      case OpInit
      then show ?thesis
        using c inp by (simp add: count_inv_def)
    next
      case OpStep
      then have s': "s' = s\<lparr>input_q := q, workers := (workers s)[j := Working k]\<rparr>"
        using st j Running inp by (simp add: worker_step_def)
      show ?thesis
      proof (rule phase_ok_update [OF ok j, of s' "Working k"])
        show "?ph = Starting \<Longrightarrow>
              fresh (Working k) \<and> input_q s' = []
              \<and> ready_from (workers s') (ready_rcvd s @ output_q s')"
          using ok inp by simp
        show "?ph = Idle \<Longrightarrow>
              Working k = Running 0 \<and> input_q s' = [] \<and> output_q s' = [] \<and> init_q s' = []"
          using ok inp by simp
        show "?ph = Loading \<Longrightarrow> alive (Working k) \<and> output_q s' = [] \<and> init_q s' = []"
          using ok by (simp add: s')
        show "?ph = Stopping \<Longrightarrow>
              started (Working k) \<and> init_q s' = []
              \<and> final_from (workers s') (final_rcvd s @ output_q s')"
          using ok fin by (simp add: s' final_from_update)
      qed (simp_all add: s')
    next
      case OpExit
      then have s': "s' = s\<lparr>input_q := q, workers := (workers s)[j := Exiting k]\<rparr>"
        using st j Running inp by (simp add: worker_step_def)
      have ex: "exits_sent W (pc s) \<noteq> 0"
        using c inp OpExit by (auto simp: count_inv_def)
      then have st: "?ph = Stopping"
        by (cases "pc s") simp_all
      show ?thesis
      proof (rule phase_ok_update [OF ok j, of s' "Exiting k"])
        show "?ph = Stopping \<Longrightarrow>
              started (Exiting k) \<and> init_q s' = []
              \<and> final_from (workers s') (final_rcvd s @ output_q s')"
          using ok fin by (simp add: s' final_from_update)
      qed (simp_all add: s' st)
    qed
  next
    case (Working k)
    then have s': "s' = s\<lparr>workers := (workers s)[j := Running (Suc k)]\<rparr>"
      using st j by (auto simp: worker_step_def)
    have n: "\<not> fresh (workers s ! j)" "workers s ! j \<noteq> Running 0" "finished (workers s ! j) = 0"
      using Working by simp_all
    show ?thesis
    proof (rule phase_ok_update [OF ok j, of s' "Running (Suc k)"])
      show "?ph = Starting \<Longrightarrow>
            fresh (Running (Suc k)) \<and> input_q s' = []
            \<and> ready_from (workers s') (ready_rcvd s @ output_q s')"
        using ok mem n(1) by auto
      show "?ph = Idle \<Longrightarrow>
            Running (Suc k) = Running 0 \<and> input_q s' = [] \<and> output_q s' = []
            \<and> init_q s' = []"
        using ok mem n(2) by auto
      show "?ph = Loading \<Longrightarrow> alive (Running (Suc k)) \<and> output_q s' = [] \<and> init_q s' = []"
        using ok by (simp add: s')
      show "?ph = Stopping \<Longrightarrow>
            started (Running (Suc k)) \<and> init_q s' = []
            \<and> final_from (workers s') (final_rcvd s @ output_q s')"
        using ok n(3) by (simp add: s' final_from_update)
    qed (simp_all add: s')
  next
    case (Exiting k)
    then have s': "s' = s\<lparr>output_q := output_q s @ [(j, int k)],
                           workers := (workers s)[j := Finished k]\<rparr>"
      using st j by (auto simp: worker_step_def split: if_splits)
    have n: "\<not> fresh (workers s ! j)" "workers s ! j \<noteq> Running 0" "\<not> alive (workers s ! j)"
        "finished (workers s ! j) = 0"
      using Exiting by simp_all
    show ?thesis
    proof (rule phase_ok_update [OF ok j, of s' "Finished k"])
      show "?ph = Starting \<Longrightarrow>
            fresh (Finished k) \<and> input_q s' = []
            \<and> ready_from (workers s') (ready_rcvd s @ output_q s')"
        using ok mem n(1) by auto
      show "?ph = Idle \<Longrightarrow>
            Finished k = Running 0 \<and> input_q s' = [] \<and> output_q s' = [] \<and> init_q s' = []"
        using ok mem n(2) by auto
      show "?ph = Loading \<Longrightarrow> alive (Finished k) \<and> output_q s' = [] \<and> init_q s' = []"
        using ok mem n(3) by auto
      show "?ph = Stopping \<Longrightarrow>
            started (Finished k) \<and> init_q s' = []
            \<and> final_from (workers s') (final_rcvd s @ output_q s')"
        using ok n(4) j final_from_send [of "workers s" "final_rcvd s @ output_q s" j k]
        by (simp add: s')
    qed (simp_all add: s')
  next
    case (Finished k)
    then show ?thesis
      using st j by (simp add: worker_step_def)
  qed
  then show ?thesis
    by (simp add: phase_inv_def pc)
qed

lemma phase_inv_frame:
  assumes "phase_ok W s p" and "workers s' = workers s" and "init_q s' = init_q s"
    and "input_q s' = input_q s" and "output_q s' = output_q s"
    and "ready_rcvd s' = ready_rcvd s" and "final_rcvd s' = final_rcvd s"
  shows "phase_ok W s' p"
  using assms by (cases p) simp_all

lemma phase_inv_exec:
  assumes "phase_inv W s" and "count_inv W s" and "orch_inv W D s"
    and "exec W D a s = Some s'"
  shows "phase_inv W s'"
proof (cases a)
  case Orch
  then show ?thesis
    using assms phase_inv_orch by simp
next
  case (Work j)
  then show ?thesis
    using assms phase_inv_worker by simp
next
  case Timer
  then have "s' = s\<lparr>timer := Fired\<rparr>"
    using assms timer_step_frame by simp
  then show ?thesis
    using assms(1) phase_inv_frame [of W s "phase_of (pc s)" s'] by (simp add: phase_inv_def)
next
  case Tick
  then have "s' = s\<lparr>now := now s + 1\<rparr>"
    using assms by (simp add: tick_def)
  then show ?thesis
    using assms(1) phase_inv_frame [of W s "phase_of (pc s)" s'] by (simp add: phase_inv_def)
qed

text \<open>Every reachable state satisfies the invariant.\<close>

lemma reach_inv_init: "reach_inv W D init_state"
  by (simp add: reach_inv_def orch_inv_init timer_inv_init count_inv_init phase_inv_init)

lemma reach_inv_exec:
  assumes "reach_inv W D s" and "exec W D a s = Some s'"
  shows "reach_inv W D s'"
  using assms orch_inv_exec timer_inv_exec count_inv_exec phase_inv_exec
  unfolding reach_inv_def by blast

lemma reach_inv_run:
  assumes "reach_inv W D s" and "run W D sched s = Some s'"
  shows "reach_inv W D s'"
  using assms
proof (induction sched arbitrary: s)
  case Nil
  then show ?case by simp
next
  case (Cons a sched)
  then show ?case
    by (auto split: option.splits intro: reach_inv_exec)
qed

lemma reachable_inv:
  "run W D sched init_state = Some s \<Longrightarrow> reach_inv W D s"
  using reach_inv_run reach_inv_init by blast

text \<open>Where the receives, the Step sends and the start timestamp are in the log.\<close>

lemma filter_ERecv_spawn_log [simp]: "filter is_ERecv (spawn_log i) = []"
  by (induction i) (simp_all add: spawn_log_Suc)

lemma filter_start_spawn_log [simp]: "filter is_start (spawn_log i) = []"
  by (induction i) (simp_all add: spawn_log_Suc)

lemma filter_ERecv_map [simp]: "filter is_ERecv (map ERecv ms) = map ERecv ms"
  by (induction ms) simp_all

lemma filter_start_map [simp]: "filter is_start (map ERecv ms) = []"
  by (induction ms) simp_all

lemma filter_ERecv_batch_log [simp]: "filter is_ERecv (batch_log i) = []"
  by (simp add: batch_log_def)

lemma filter_ERecv_loop_log [simp]: "filter is_ERecv (loop_log W n) = []"
  by (induction n) (simp_all add: loop_log_Suc)

lemma not_in_set_filter:
  "filter P ys = [] \<Longrightarrow> P e \<Longrightarrow> e \<notin> set ys"
  by (auto simp: filter_empty_conv)

lemma split_in_first:
  assumes "xs @ ys = p @ e # r" and "e \<notin> set ys"
  shows "\<exists>z. xs = p @ e # z"
proof -
  from assms(1) obtain us where
    "(xs = p @ us \<and> us @ ys = e # r) \<or> (xs @ us = p \<and> ys = us @ e # r)"
    by (auto simp: append_eq_append_conv2)
  then show ?thesis
  proof
    assume a: "xs = p @ us \<and> us @ ys = e # r"
    show ?thesis
    proof (cases us)
      case Nil
      then show ?thesis
        using a assms(2) by simp
    next
      case (Cons u us')
      then show ?thesis
        using a by simp
    qed
  next
    assume "xs @ us = p \<and> ys = us @ e # r"
    then show ?thesis
      using assms(2) by simp
  qed
qed

lemma split_in_second:
  assumes "xs @ ys = p @ e # r" and "e \<notin> set xs"
  shows "\<exists>p'. p = xs @ p' \<and> ys = p' @ e # r"
proof -
  from assms(1) obtain us where
    "(xs = p @ us \<and> us @ ys = e # r) \<or> (xs @ us = p \<and> ys = us @ e # r)"
    by (auto simp: append_eq_append_conv2)
  then show ?thesis
  proof
    assume a: "xs = p @ us \<and> us @ ys = e # r"
    show ?thesis
    proof (cases us)
      case Nil
      then show ?thesis
        using a by simp
    next
      case (Cons u us')
      then show ?thesis
        using a assms(2) by auto
    qed
  next
    assume "xs @ us = p \<and> ys = us @ e # r"
    then show ?thesis
      by auto
  qed
qed

text \<open>Three segments of the log: up to the barrier, the timed part, the collection.\<close>

lemma log_segments:
  assumes "A @ X @ Y = p @ e # r" and "is_start e"
    and "filter is_start A = []" and "filter is_ERecv X = []" and "filter is_start Y = []"
  shows "filter is_ERecv p = filter is_ERecv A \<and> X \<noteq> []"
proof -
  have "e \<notin> set A"
    using assms(2,3) by (rule not_in_set_filter [rotated])
  then obtain p' where p': "p = A @ p'" "X @ Y = p' @ e # r"
    using split_in_second [OF assms(1)] by blast
  have "e \<notin> set Y"
    using assms(2,5) by (rule not_in_set_filter [rotated])
  then obtain z where z: "X = p' @ e # z"
    using split_in_first [OF p'(2)] by blast
  then have "filter is_ERecv p' = []"
    using assms(4) by simp
  then show ?thesis
    using p'(1) z by simp
qed

lemma expected_log_segments:
  "\<exists>A X Y. expected_log W D s p = A @ X @ Y
      \<and> filter is_start A = [] \<and> filter is_ERecv X = [] \<and> filter is_start Y = []
      \<and> (X \<noteq> [] \<longrightarrow> A = barrier_log W s \<and> phase_of p \<noteq> Starting)"
proof (cases p)
  case (Spawn i)
  then show ?thesis
    by (intro exI [of _ "spawn_log i"] exI [of _ "[]"]) simp
next
  case (SendInit i)
  then show ?thesis
    by (intro exI [of _ "spawn_log i @ [EGo i]"] exI [of _ "[]"]) simp
next
  case (Barrier k)
  then show ?thesis
    by (intro exI [of _ "barrier_log W s"] exI [of _ "[]"]) (simp add: barrier_log_def)
next
  case GC
  then show ?thesis
    by (intro exI [of _ "barrier_log W s"] exI [of _ "[]"]) (simp add: barrier_log_def)
next
  case Begin
  then show ?thesis
    by (intro exI [of _ "barrier_log W s"] exI [of _ "[EGC, EGC]"] exI [of _ "[]"])
       (simp add: barrier_log_def)
next
  case Arm
  then show ?thesis
    by (intro exI [of _ "barrier_log W s"] exI [of _ "[EGC, EGC, EBegin (begin_t s)]"]
        exI [of _ "[]"]) (simp add: barrier_log_def)
next
  case Select
  then show ?thesis
    by (intro exI [of _ "barrier_log W s"]
        exI [of _ "[EGC, EGC, EBegin (begin_t s), EAfterFunc (duration_ns D)]
                     @ loop_log W (batches s)"]
        exI [of _ "[]"]) (simp add: barrier_log_def start_log_def)
next
  case (Batch i)
  then show ?thesis
    by (intro exI [of _ "barrier_log W s"]
        exI [of _ "[EGC, EGC, EBegin (begin_t s), EAfterFunc (duration_ns D)]
                     @ loop_log W (batches s) @ batch_log i"]
        exI [of _ "[]"]) (simp add: barrier_log_def start_log_def)
next
  case (SendExit k)
  then show ?thesis
    by (intro exI [of _ "barrier_log W s"]
        exI [of _ "[EGC, EGC, EBegin (begin_t s), EAfterFunc (duration_ns D)]
                     @ loop_log W (batches s) @ [EPoll True]"]
        exI [of _ "replicate k (ESend OpExit)"]) (simp add: barrier_log_def start_log_def)
next
  case (Collect k)
  then show ?thesis
    by (intro exI [of _ "barrier_log W s"]
        exI [of _ "[EGC, EGC, EBegin (begin_t s), EAfterFunc (duration_ns D)]
                     @ loop_log W (batches s) @ [EPoll True]"]
        exI [of _ "replicate W (ESend OpExit) @ map ERecv (final_rcvd s)"])
       (simp add: barrier_log_def start_log_def stop_log_def)
next
  case End
  then show ?thesis
    by (intro exI [of _ "barrier_log W s"]
        exI [of _ "[EGC, EGC, EBegin (begin_t s), EAfterFunc (duration_ns D)]
                     @ loop_log W (batches s) @ [EPoll True]"]
        exI [of _ "replicate W (ESend OpExit) @ map ERecv (final_rcvd s)"])
       (simp add: barrier_log_def start_log_def stop_log_def)
next
  case Compute
  then show ?thesis
    by (intro exI [of _ "barrier_log W s"]
        exI [of _ "[EGC, EGC, EBegin (begin_t s), EAfterFunc (duration_ns D)]
                     @ loop_log W (batches s) @ [EPoll True]"]
        exI [of _ "replicate W (ESend OpExit) @ map ERecv (final_rcvd s) @ [EEnd (end_t s)]"])
       (simp add: barrier_log_def start_log_def stop_log_def)
next
  case Done
  then show ?thesis
    by (intro exI [of _ "barrier_log W s"]
        exI [of _ "[EGC, EGC, EBegin (begin_t s), EAfterFunc (duration_ns D)]
                     @ loop_log W (batches s) @ [EPoll True]"]
        exI [of _ "replicate W (ESend OpExit) @ map ERecv (final_rcvd s) @ [EEnd (end_t s)]"])
       (simp add: barrier_log_def start_log_def stop_log_def)
qed

text \<open>Messages from distinct workers, one per worker.\<close>

lemma distinct_ids_all:
  assumes "distinct (map fst ms)" and "\<forall>m \<in> set ms. fst m < W" and "length ms = W"
  shows "mset (map fst ms) = mset [0..<W]"
proof -
  have sub: "set (map fst ms) \<subseteq> {0..<W}"
    using assms(2) by auto
  have "card (set (map fst ms)) = W"
    using assms(1,3) distinct_card [of "map fst ms"] by simp
  then have "set (map fst ms) = {0..<W}"
    using sub by (intro card_subset_eq) simp_all
  then have "set (map fst ms) = set [0..<W]"
    by simp
  then show ?thesis
    using set_eq_iff_mset_eq_distinct [OF assms(1) distinct_upt] by blast
qed

lemma phase_not_Starting:
  assumes "reach_inv W D s" and "phase_of (pc s) \<noteq> Starting"
  shows "length (ready_rcvd s) = W \<and> ready_msgs W (ready_rcvd s)"
proof -
  have "pc_inv W s (pc s)" and "phase_ok W s (phase_of (pc s))"
    using assms(1) by (simp_all add: reach_inv_def orch_inv_def phase_inv_def)
  then show ?thesis
    using assms(2) by (cases "pc s") simp_all
qed

lemma phase_Starting:
  assumes "reach_inv W D s" and "length (ready_rcvd s) < W"
  shows "phase_of (pc s) = Starting"
  using phase_not_Starting [OF assms(1)] assms(2) by auto

lemma fresh_begun: "fresh w \<Longrightarrow> begun w = 0"
  by (cases w) simp_all

text \<open>The test runs, evaluated.\<close>

lemmas demo_defs = demo_sched_def demo_start_def demo_final_def demo_mid_def
  demo_full_sched_def demo_full_def demo_fired_def demo_armed_def demo_exit_def init_state_def
  eval_nat_numeral orch_step_def worker_step_def timer_step_def tick_def
  duration_ns_def f64_of_int_def

lemma demo_run: "run 2 0 demo_sched init_state = Some demo_final"
  by (simp add: demo_defs)

lemma demo_mid_run: "run 2 0 (take 7 demo_start) init_state = Some demo_mid"
  by (simp add: demo_defs)

lemma demo_armed_run: "run 2 0 demo_start init_state = Some demo_armed"
  by (simp add: demo_defs)

lemma demo_fired_run: "run 2 0 (demo_start @ [Timer]) init_state = Some demo_fired"
  by (simp add: demo_defs)


text \<open>
  C1. In every reachable state, under every schedule: whatever precedes a send of a Step
  or the recording of the start timestamp in the log of \<^verbatim>\<open>runBench\<close> contains exactly
  the receives of the barrier, there are \<open>W\<close> of them, they come from the \<open>W\<close> workers,
  one each, and each is a readiness signal (value 0). As long as fewer than \<open>W\<close>
  signals have been received, no worker has taken a Step off the work queue, and the
  work queue is empty.
\<close>

theorem barrier_before_first_Step:
  assumes "run W D sched init_state = Some s"
  shows "(\<forall>p e r. olog s = p @ e # r \<and> is_start e \<longrightarrow>
            filter is_ERecv p = map ERecv (ready_rcvd s)
            \<and> length (ready_rcvd s) = W
            \<and> mset (map fst (ready_rcvd s)) = mset [0..<W]
            \<and> (\<forall>m \<in> set (ready_rcvd s). snd m = 0))
       \<and> (length (ready_rcvd s) < W \<longrightarrow>
            (\<forall>w \<in> set (workers s). begun w = 0) \<and> input_q s = [])"
proof (intro conjI allI impI)
  have i: "reach_inv W D s"
    using assms by (rule reachable_inv)
  then have log: "olog s = expected_log W D s (pc s)"
    by (simp add: reach_inv_def orch_inv_def)
  {
    fix p e r
    assume a: "olog s = p @ e # r \<and> is_start e"
    obtain A X Y where seg: "expected_log W D s (pc s) = A @ X @ Y"
      "filter is_start A = []" "filter is_ERecv X = []" "filter is_start Y = []"
      "X \<noteq> [] \<longrightarrow> A = barrier_log W s \<and> phase_of (pc s) \<noteq> Starting"
      using expected_log_segments by blast
    have "A @ X @ Y = p @ e # r"
      using a log seg(1) by simp
    from log_segments [OF this _ seg(2,3,4)] a
    have f: "filter is_ERecv p = filter is_ERecv A" and x: "X \<noteq> []"
      by simp_all
    then have A: "A = barrier_log W s" and ns: "phase_of (pc s) \<noteq> Starting"
      using seg(5) by simp_all
    have rm: "length (ready_rcvd s) = W" "ready_msgs W (ready_rcvd s)"
      using phase_not_Starting [OF i ns] by simp_all
    show "filter is_ERecv p = map ERecv (ready_rcvd s)"
      using f A by (simp add: barrier_log_def)
    show "length (ready_rcvd s) = W"
      using rm by simp
    show "mset (map fst (ready_rcvd s)) = mset [0..<W]"
      using rm by (intro distinct_ids_all) (simp_all add: ready_msgs_def)
    show "\<forall>m \<in> set (ready_rcvd s). snd m = 0"
      using rm by (simp add: ready_msgs_def)
  }
  {
    assume "length (ready_rcvd s) < W"
    then have "phase_of (pc s) = Starting"
      using phase_Starting [OF i] by simp
    then have ok: "phase_ok W s Starting"
      using i by (simp add: reach_inv_def phase_inv_def)
    then show "\<forall>w \<in> set (workers s). begun w = 0"
      using fresh_begun by auto
    show "input_q s = []"
      using ok by simp
  }
qed

theorem barrier_before_first_Step_witness:
  "filter is_ERecv [EGo 0, ESend OpInit, EGo 1, ESend OpInit, ERecv (1, 0), ERecv (0, 0), EGC, EGC]
     = map ERecv (ready_rcvd demo_final)
   \<and> ready_rcvd demo_final = [(1, 0), (0, 0)]
   \<and> mset (map fst (ready_rcvd demo_final)) = mset [0..<2]
   \<and> length (ready_rcvd demo_mid) < 2
   \<and> map begun (workers demo_mid) = [0, 0]
   \<and> input_q demo_mid = []"
proof -
  have l: "olog demo_final
             = [EGo 0, ESend OpInit, EGo 1, ESend OpInit, ERecv (1, 0), ERecv (0, 0), EGC, EGC]
                 @ EBegin 0
                 # ([EAfterFunc 0, EPoll False] @ replicate 32 (ESend OpStep)
                    @ [EPoll True, ESend OpExit, ESend OpExit, ERecv (1, 12), ERecv (0, 20),
                       EEnd 4])
           \<and> is_start (EBegin 0)"
    by (simp add: demo_final_def)
  have m: "length (ready_rcvd demo_mid) < 2"
    by (simp add: demo_mid_def)
  show ?thesis
    using barrier_before_first_Step [OF demo_run, THEN conjunct1, rule_format, OF l]
      barrier_before_first_Step [OF demo_mid_run, THEN conjunct2, rule_format, OF m]
    by (simp add: demo_final_def demo_mid_def)
qed




lemma filter_loop_spawn_log [simp]: "filter is_loop (spawn_log i) = []"
  by (induction i) (simp_all add: spawn_log_Suc)

lemma filter_loop_map [simp]: "filter is_loop (map ERecv ms) = []"
  by (induction ms) simp_all

lemma filter_loop_batch_log [simp]: "filter is_loop (batch_log i) = batch_log i"
  by (simp add: batch_log_def)

lemma filter_loop_loop_log [simp]: "filter is_loop (loop_log W n) = loop_log W n"
  by (induction n) (simp_all add: loop_log_Suc)





text \<open>The end of the run: the values received are the workers' final counters.\<close>

lemma filter_stop_spawn_log [simp]: "filter is_stop (spawn_log i) = []"
  by (induction i) (simp_all add: spawn_log_Suc)

lemma filter_stop_map [simp]: "filter is_stop (map ERecv ms) = []"
  by (induction ms) simp_all

lemma filter_stop_batch_log [simp]: "filter is_stop (batch_log i) = []"
  by (simp add: batch_log_def)

lemma filter_stop_loop_log [simp]: "filter is_stop (loop_log W n) = []"
  by (induction n) (simp_all add: loop_log_Suc)




lemma finished_state:
  assumes "reach_inv W D s" and "pc s = End \<or> pc s = Compute \<or> pc s = Done"
  shows "final_from (workers s) (final_rcvd s) \<and> length (final_rcvd s) = W
       \<and> length (workers s) = W \<and> output_q s = []
       \<and> nb s = sum_list (map snd (final_rcvd s))"
proof -
  have pi: "pc_inv W s (pc s)" and ok: "phase_ok W s (phase_of (pc s))"
    and c: "count_inv W s"
    using assms(1) by (simp_all add: reach_inv_def orch_inv_def phase_inv_def)
  have l: "length (final_rcvd s) = W" "length (workers s) = W"
      "nb s = sum_list (map snd (final_rcvd s))"
    using pi assms(2) by auto
  have ff: "final_from (workers s) (final_rcvd s @ output_q s)"
    using ok assms(2) by auto
  then have d: "distinct (map fst (final_rcvd s @ output_q s))"
    and b: "\<forall>m \<in> set (final_rcvd s @ output_q s). fst m < W"
    using l(2) by (simp_all add: final_from_def)
  have "set (map fst (final_rcvd s @ output_q s)) \<subseteq> {0..<W}"
  proof
    fix x
    assume "x \<in> set (map fst (final_rcvd s @ output_q s))"
    then obtain m where "m \<in> set (final_rcvd s @ output_q s)" "x = fst m"
      by auto
    then show "x \<in> {0..<W}"
      using b by simp
  qed
  then have "card (set (map fst (final_rcvd s @ output_q s))) \<le> card {0..<W}"
    by (intro card_mono) simp_all
  then have "length (final_rcvd s @ output_q s) \<le> W"
    using d distinct_card [of "map fst (final_rcvd s @ output_q s)"] by simp
  then have "output_q s = []"
    using l(1) by simp
  then show ?thesis
    using ff l by simp
qed

lemma sum_list_map_cong_le:
  fixes f g :: "'a \<Rightarrow> nat"
  assumes "\<forall>w \<in> set ws. f w = g w"
  shows "sum_list (map f ws) = sum_list (map g ws)"
  using assms by (induction ws) auto


lemma count_op_replicate [simp]:
  "count_op c (replicate n x) = (if x = c then n else 0)"
  by (cases "x = c") (simp_all add: count_op_def)

lemma count_op_append [simp]: "count_op c (xs @ ys) = count_op c xs + count_op c ys"
  by (simp add: count_op_def)

lemma exits_taken_append_WaitInit [simp]:
  "exits_taken (ws @ [WaitInit]) = exits_taken ws"
  by (simp add: exits_taken_def)

















section \<open>Termination of the single iteration\<close>

text \<open>Outside the timed window every step lowers the bound.\<close>

lemma remaining_orch:
  assumes "orch_step W D s = Some s'" and "timer s \<noteq> Armed" and "timer_inv D s"
    and "pc_inv W s (pc s)"
  shows "remaining W s' < remaining W s"
proof (cases "pc s")
  case (Spawn i)
  then show ?thesis
    using assms by (auto simp: remaining_def orch_step_def split: if_splits)
next
  case (SendInit i)
  then show ?thesis
    using assms by (auto simp: remaining_def orch_step_def split: if_splits)
next
  case (Barrier k)
  then show ?thesis
    using assms by (auto simp: remaining_def orch_step_def split: if_splits list.splits)
next
  case GC
  then show ?thesis
    using assms by (auto simp: remaining_def orch_step_def)
next
  case Begin
  then show ?thesis
    using assms by (auto simp: remaining_def orch_step_def)
next
  case Arm
  then show ?thesis
    using assms by (auto simp: remaining_def orch_step_def)
next
  case Select
  then show ?thesis
    using assms by (auto simp: remaining_def orch_step_def timer_inv_def split: if_splits)
next
  case (Batch i)
  then show ?thesis
    using assms by (auto simp: remaining_def orch_step_def split: if_splits)
next
  case (SendExit k)
  then show ?thesis
    using assms by (auto simp: remaining_def orch_step_def split: if_splits)
next
  case (Collect k)
  then show ?thesis
    using assms by (auto simp: remaining_def orch_step_def split: if_splits list.splits)
next
  case End
  then show ?thesis
    using assms by (auto simp: remaining_def orch_step_def)
next
  case Compute
  then show ?thesis
    using assms by (auto simp: remaining_def orch_step_def)
next
  case Done
  then show ?thesis
    using assms by (auto simp: remaining_def orch_step_def)
qed

lemma remaining_worker:
  assumes "worker_step W j s = Some s'"
  shows "remaining W s' < remaining W s"
proof -
  have j: "j < length (workers s)"
    using assms by (auto simp: worker_step_def split: if_splits)
  note upd = sum_list_map_update [OF j, of worker_rem]
  have pc: "pc s' = pc s"
    using worker_step_frame [OF assms] by simp
  show ?thesis
  proof (cases "workers s ! j")
    case WaitInit
    then show ?thesis
      using assms j upd [of Ready] pc
      by (auto simp: remaining_def worker_step_def split: list.splits)
  next
    case Ready
    then show ?thesis
      using assms j upd [of "Running 0"] pc
      by (auto simp: remaining_def worker_step_def split: if_splits)
  next
    case (Running c)
    then show ?thesis
      using assms j upd [of "Working c"] upd [of "Exiting c"] pc
      by (auto simp: remaining_def worker_step_def split: list.splits WorkerOp.splits)
  next
    case (Working c)
    then show ?thesis
      using assms j upd [of "Running (Suc c)"] pc
      by (auto simp: remaining_def worker_step_def)
  next
    case (Exiting c)
    then show ?thesis
      using assms j upd [of "Finished c"] pc
      by (auto simp: remaining_def worker_step_def split: if_splits)
  next
    case (Finished c)
    then show ?thesis
      using assms j by (simp add: worker_step_def)
  qed
qed

lemma remaining_exec:
  assumes "reach_inv W D s" and "exec W D a s = Some s'" and "a \<noteq> Tick" and "timer s \<noteq> Armed"
  shows "remaining W s' < remaining W s"
proof (cases a)
  case Orch
  then show ?thesis
    using assms remaining_orch [of W D s s'] by (simp add: reach_inv_def orch_inv_def)
next
  case (Work j)
  then show ?thesis
    using assms remaining_worker by simp
next
  case Timer
  then show ?thesis
    using assms by (simp add: timer_step_def split: if_splits)
next
  case Tick
  then show ?thesis
    using assms by simp
qed

text \<open>No reachable state is stuck.\<close>

lemma exists_zero:
  fixes f :: "'a \<Rightarrow> nat"
  assumes "sum_list (map f ws) < length ws"
  shows "\<exists>j<length ws. f (ws ! j) = 0"
proof (rule ccontr)
  assume "\<not> (\<exists>j<length ws. f (ws ! j) = 0)"
  then have "\<forall>w \<in> set ws. 1 \<le> f w"
    by (metis in_set_conv_nth less_one not_le_imp_less)
  then have "length ws \<le> sum_list (map f ws)"
    by (induction ws) auto
  then show False
    using assms by simp
qed

lemma worker_enabled_Working:
  "j < length (workers s) \<Longrightarrow> workers s ! j = Working c \<Longrightarrow> worker_step W j s \<noteq> None"
  by (simp add: worker_step_def)

lemma worker_enabled_Running:
  "j < length (workers s) \<Longrightarrow> workers s ! j = Running c \<Longrightarrow> input_q s \<noteq> [] \<Longrightarrow>
   worker_step W j s \<noteq> None"
  by (simp add: worker_step_def split: list.splits WorkerOp.splits)

lemma worker_enabled_WaitInit:
  "j < length (workers s) \<Longrightarrow> workers s ! j = WaitInit \<Longrightarrow> init_q s \<noteq> [] \<Longrightarrow>
   worker_step W j s \<noteq> None"
  by (simp add: worker_step_def split: list.splits)

lemma worker_enabled_Ready:
  "j < length (workers s) \<Longrightarrow> workers s ! j = Ready \<Longrightarrow> length (output_q s) < W \<Longrightarrow>
   worker_step W j s \<noteq> None"
  by (simp add: worker_step_def)

lemma worker_enabled_Exiting:
  "j < length (workers s) \<Longrightarrow> workers s ! j = Exiting c \<Longrightarrow> length (output_q s) < W \<Longrightarrow>
   worker_step W j s \<noteq> None"
  by (simp add: worker_step_def)

lemma started_ready_sent: "started w \<Longrightarrow> ready_sent w = 1"
  by (cases w) simp_all

text \<open>The barrier cannot starve: a worker that has not reported can move.\<close>

lemma barrier_progress:
  assumes c: "count_inv W s" and f: "\<forall>w \<in> set (workers s). fresh w"
    and l: "length (workers s) = W" "length (ready_rcvd s) < W" "final_rcvd s = []"
    and o: "output_q s = []" and i: "inits_sent W (pc s) = W"
  shows "\<exists>j<length (workers s). worker_step W j s \<noteq> None"
proof -
  have fin: "sum_list (map finished (workers s)) = 0"
    using f by (intro sum_list_map_all_0) (simp add: fresh_finished_0)
  then have rs: "sum_list (map ready_sent (workers s)) = length (ready_rcvd s)"
    using c l o by (simp add: count_inv_def)
  then obtain j where j: "j < length (workers s)" "ready_sent (workers s ! j) = 0"
    using exists_zero [of ready_sent "workers s"] l by auto
  show ?thesis
  proof (cases "\<exists>j<length (workers s). workers s ! j = Ready")
    case True
    then obtain j' where "j' < length (workers s)" "workers s ! j' = Ready"
      by blast
    then show ?thesis
      using worker_enabled_Ready [of j' s W] o l by auto
  next
    case False
    have "inits_taken w = ready_sent w" if "w \<in> set (workers s)" for w
    proof -
      have "w \<noteq> Ready"
        using False that by (metis in_set_conv_nth)
      then show ?thesis
        by (cases w) simp_all
    qed
    then have "sum_list (map inits_taken (workers s)) = sum_list (map ready_sent (workers s))"
      by (intro sum_list_map_cong_le) simp
    then have "length (init_q s) + length (ready_rcvd s) = W"
      using c i rs by (simp add: count_inv_def)
    then have "init_q s \<noteq> []"
      using l(2) by auto
    moreover have "workers s ! j = WaitInit"
      using j False by (cases "workers s ! j") auto
    ultimately show ?thesis
      using worker_enabled_WaitInit [of j s W] j by auto
  qed
qed

text \<open>A full work queue is drained: some worker is still reading it.\<close>

lemma queue_progress:
  assumes c: "count_inv W s" and st: "\<forall>w \<in> set (workers s). started w"
    and l: "length (workers s) = W" and e: "exits_sent W (pc s) < W"
    and q: "input_q s \<noteq> []"
  shows "\<exists>j<length (workers s). worker_step W j s \<noteq> None"
proof -
  have "sum_list (map exited (workers s)) \<le> exits_sent W (pc s)"
    using c by (simp add: count_inv_def)
  then have "sum_list (map exited (workers s)) < length (workers s)"
    using e l by simp
  then obtain j where j: "j < length (workers s)" "exited (workers s ! j) = 0"
    using exists_zero [of exited "workers s"] by auto
  have "started (workers s ! j)"
    using st j by simp
  then show ?thesis
    using j q worker_enabled_Running [of j s _ W] worker_enabled_Working [of j s _ W]
    by (cases "workers s ! j") auto
qed

text \<open>The collection cannot starve: a worker that has not reported can move.\<close>

lemma collect_progress:
  assumes c: "count_inv W s" and st: "\<forall>w \<in> set (workers s). started w"
    and l: "length (workers s) = W" "length (ready_rcvd s) = W" "length (final_rcvd s) < W"
    and o: "output_q s = []" and e: "exits_sent W (pc s) = W"
  shows "\<exists>j<length (workers s). worker_step W j s \<noteq> None"
proof -
  have "\<forall>w \<in> set (workers s). ready_sent w = 1"
    using st started_ready_sent by blast
  then have "sum_list (map ready_sent (workers s)) = W"
    using sum_list_map_all_1 l(1) by blast
  then have fin: "sum_list (map finished (workers s)) = length (final_rcvd s)"
    using c l o by (simp add: count_inv_def)
  then obtain j where j: "j < length (workers s)" "finished (workers s ! j) = 0"
    using exists_zero [of finished "workers s"] l by auto
  have sj: "started (workers s ! j)"
    using st j by simp
  show ?thesis
  proof (cases "\<exists>j<length (workers s). \<exists>c. workers s ! j = Working c \<or> workers s ! j = Exiting c")
    case True
    then obtain j' k where "j' < length (workers s)"
      "workers s ! j' = Working k \<or> workers s ! j' = Exiting k"
      by blast
    then show ?thesis
      using worker_enabled_Working [of j' s k W] worker_enabled_Exiting [of j' s k W] o l(1,3)
      by auto
  next
    case False
    have "exited w = finished w" if "w \<in> set (workers s)" for w
    proof -
      have "\<forall>k. w \<noteq> Exiting k"
        using False that by (metis in_set_conv_nth)
      then show ?thesis
        by (cases w) simp_all
    qed
    then have "sum_list (map exited (workers s)) = sum_list (map finished (workers s))"
      by (intro sum_list_map_cong_le) simp
    then have "count_op OpExit (input_q s) + length (final_rcvd s) = W"
      using c e fin by (simp add: count_inv_def)
    then have "count_op OpExit (input_q s) \<noteq> 0"
      using l(3) by auto
    then have q: "input_q s \<noteq> []"
      by auto
    obtain k where "workers s ! j = Running k"
      using sj j False by (cases "workers s ! j") auto
    then show ?thesis
      using worker_enabled_Running [of j s k W] j q by auto
  qed
qed

lemma not_stuck:
  assumes "reach_inv W D s" and "pc s \<noteq> Done"
  shows "can_move W D s"
proof -
  have pi: "pc_inv W s (pc s)" and ok: "phase_ok W s (phase_of (pc s))"
    and c: "count_inv W s"
    using assms(1) by (simp_all add: reach_inv_def orch_inv_def phase_inv_def)
  show ?thesis
  proof (cases "pc s")
    case (Spawn i)
    then show ?thesis
      by (simp add: can_move_def orch_step_def)
  next
    case (SendInit i)
    then have "length (init_q s) \<le> i" "i < W"
      using c pi by (simp_all add: count_inv_def)
    then show ?thesis
      using SendInit by (simp add: can_move_def orch_step_def)
  next
    case (Barrier k)
    show ?thesis
    proof (cases "k < length (workers s) \<and> output_q s = []")
      case True
      then have "\<exists>j<length (workers s). worker_step W j s \<noteq> None"
        using barrier_progress [OF c] ok pi Barrier by simp
      then show ?thesis
        by (simp add: can_move_def)
    next
      case False
      then show ?thesis
        using Barrier by (auto simp: can_move_def orch_step_def split: list.splits)
    qed
  next
    case GC
    then show ?thesis
      by (simp add: can_move_def orch_step_def)
  next
    case Begin
    then show ?thesis
      by (simp add: can_move_def orch_step_def)
  next
    case Arm
    then show ?thesis
      by (simp add: can_move_def orch_step_def)
  next
    case Select
    then show ?thesis
      by (simp add: can_move_def orch_step_def)
  next
    case (Batch i)
    show ?thesis
    proof (cases "i < W * 16 \<and> \<not> length (input_q s) < W * 32")
      case True
      then have "input_q s \<noteq> []" "0 < W"
        by auto
      moreover have "\<forall>w \<in> set (workers s). alive w"
        using ok Batch by simp
      then have "\<forall>w \<in> set (workers s). started w"
        by (rule all_alive_started)
      ultimately have "\<exists>j<length (workers s). worker_step W j s \<noteq> None"
        using queue_progress [OF c] pi Batch by simp
      then show ?thesis
        by (simp add: can_move_def)
    next
      case False
      then show ?thesis
        using Batch by (auto simp: can_move_def orch_step_def)
    qed
  next
    case (SendExit k)
    show ?thesis
    proof (cases "k < length (workers s) \<and> \<not> length (input_q s) < W * 32")
      case True
      then have "input_q s \<noteq> []" "k < W"
        using pi SendExit by auto
      then have "\<exists>j<length (workers s). worker_step W j s \<noteq> None"
        using queue_progress [OF c] pi ok SendExit by simp
      then show ?thesis
        by (simp add: can_move_def)
    next
      case False
      then show ?thesis
        using SendExit by (auto simp: can_move_def orch_step_def)
    qed
  next
    case (Collect k)
    show ?thesis
    proof (cases "k < length (workers s) \<and> output_q s = []")
      case True
      then have "\<exists>j<length (workers s). worker_step W j s \<noteq> None"
        using collect_progress [OF c] pi ok Collect by simp
      then show ?thesis
        by (simp add: can_move_def)
    next
      case False
      then show ?thesis
        using Collect by (auto simp: can_move_def orch_step_def split: list.splits)
    qed
  next
    case End
    then show ?thesis
      by (simp add: can_move_def orch_step_def)
  next
    case Compute
    then show ?thesis
      by (simp add: can_move_def orch_step_def)
  next
    case Done
    then show ?thesis
      using assms(2) by simp
  qed
qed

text \<open>Some schedule leads to the end.\<close>

lemma run_append:
  "run W D (xs @ ys) s = (case run W D xs s of None \<Rightarrow> None | Some s' \<Rightarrow> run W D ys s')"
  by (induction xs arbitrary: s) (auto split: option.splits)

lemma run_ticks: "run W D (replicate n Tick) s = Some (s\<lparr>now := now s + int n\<rparr>)"
proof (induction n arbitrary: s)
  case 0
  then show ?case by simp
next
  case (Suc n)
  then show ?case
    by (simp add: tick_def add.assoc add.commute)
qed

lemma can_move_exec:
  assumes "can_move W D s"
  shows "\<exists>a s'. a \<noteq> Tick \<and> a \<noteq> Timer \<and> exec W D a s = Some s'"
proof (cases "orch_step W D s")
  case None
  then obtain j s' where "worker_step W j s = Some s'"
    using assms by (auto simp: can_move_def)
  then have "Work j \<noteq> Tick \<and> Work j \<noteq> Timer \<and> exec W D (Work j) s = Some s'"
    by simp
  then show ?thesis
    by blast
next
  case (Some s')
  then have "Orch \<noteq> Tick \<and> Orch \<noteq> Timer \<and> exec W D Orch s = Some s'"
    by simp
  then show ?thesis
    by blast
qed

lemma timer_after_fired:
  assumes "timer_inv D s" and "exec W D a s = Some s'"
    and "timer s = Fired \<or> timer s = Delivered"
  shows "timer s' = Fired \<or> timer s' = Delivered"
proof (cases a)
  case Orch
  then have "orch_step W D s = Some s'"
    using assms by simp
  then show ?thesis
    using assms(1,3)
    by (cases "pc s") (auto simp: timer_inv_def orch_step_def split: if_splits list.splits)
next
  case (Work j)
  then show ?thesis
    using assms worker_step_frame [of W j s s'] by simp
next
  case Timer
  then show ?thesis
    using assms by (auto simp: timer_step_def split: if_splits)
next
  case Tick
  then show ?thesis
    using assms by (auto simp: tick_def)
qed

lemma timer_after_Unarmed:
  assumes "timer_inv D s" and "exec W D a s = Some s'" and "timer s = Unarmed"
  shows "timer s' = Unarmed \<or> timer s' = Armed"
proof (cases a)
  case Orch
  then have "orch_step W D s = Some s'"
    using assms by simp
  then show ?thesis
    using assms(1,3)
    by (cases "pc s") (auto simp: timer_inv_def orch_step_def split: if_splits list.splits)
next
  case (Work j)
  then show ?thesis
    using assms worker_step_frame [of W j s s'] by simp
next
  case Timer
  then show ?thesis
    using assms by (auto simp: timer_step_def split: if_splits)
next
  case Tick
  then show ?thesis
    using assms by (auto simp: tick_def)
qed

lemma Done_Delivered: "timer_inv D s \<Longrightarrow> pc s = Done \<Longrightarrow> timer s = Delivered"
  by (simp add: timer_inv_def)

text \<open>After the timer has fired, some schedule finishes the run.\<close>

lemma finish_after_fired:
  assumes "reach_inv W D s" and "timer s = Fired \<or> timer s = Delivered"
  shows "\<exists>sched s'. run W D sched s = Some s' \<and> pc s' = Done"
  using assms
proof (induction "remaining W s" arbitrary: s rule: less_induct)
  case less
  show ?case
  proof (cases "pc s = Done")
    case True
    then have "run W D [] s = Some s \<and> pc s = Done"
      by simp
    then show ?thesis
      by blast
  next
    case False
    then have "can_move W D s"
      using less.prems(1) by (rule not_stuck [rotated])
    then obtain a s1 where a: "a \<noteq> Tick" "exec W D a s = Some s1"
      using can_move_exec by blast
    have i1: "reach_inv W D s1"
      using less.prems(1) a(2) by (rule reach_inv_exec)
    have t1: "timer s1 = Fired \<or> timer s1 = Delivered"
      using timer_after_fired [OF _ a(2) less.prems(2)] less.prems(1) by (simp add: reach_inv_def)
    have "timer s \<noteq> Armed"
      using less.prems(2) by auto
    then have "remaining W s1 < remaining W s"
      using remaining_exec [OF less.prems(1) a(2) a(1)] by simp
    then obtain sched s' where "run W D sched s1 = Some s'" "pc s' = Done"
      using less.hyps [OF _ i1 t1] by blast
    then have "run W D (a # sched) s = Some s' \<and> pc s' = Done"
      using a(2) by simp
    then show ?thesis
      by blast
  qed
qed

text \<open>Before the timer is armed, some schedule reaches the point where it is.\<close>

lemma reach_Armed:
  assumes "reach_inv W D s" and "timer s = Unarmed"
  shows "\<exists>sched s'. run W D sched s = Some s' \<and> reach_inv W D s' \<and> timer s' = Armed"
  using assms
proof (induction "remaining W s" arbitrary: s rule: less_induct)
  case less
  have ti: "timer_inv D s"
    using less.prems(1) by (simp add: reach_inv_def)
  have "pc s \<noteq> Done"
    using Done_Delivered [OF ti] less.prems(2) by auto
  then have "can_move W D s"
    using less.prems(1) by (rule not_stuck [rotated])
  then obtain a s1 where a: "a \<noteq> Tick" "exec W D a s = Some s1"
    using can_move_exec by blast
  have i1: "reach_inv W D s1"
    using less.prems(1) a(2) by (rule reach_inv_exec)
  have t1: "timer s1 = Unarmed \<or> timer s1 = Armed"
    using timer_after_Unarmed [OF ti a(2) less.prems(2)] .
  show ?case
  proof (cases "timer s1 = Armed")
    case True
    then have "run W D [a] s = Some s1 \<and> reach_inv W D s1 \<and> timer s1 = Armed"
      using a(2) i1 by simp
    then show ?thesis
      by blast
  next
    case False
    then have u: "timer s1 = Unarmed"
      using t1 by simp
    have "timer s \<noteq> Armed"
      using less.prems(2) by simp
    then have "remaining W s1 < remaining W s"
      using remaining_exec [OF less.prems(1) a(2) a(1)] by simp
    then obtain sched s' where "run W D sched s1 = Some s'" "reach_inv W D s'" "timer s' = Armed"
      using less.hyps [OF _ i1 u] by blast
    then have "run W D (a # sched) s = Some s' \<and> reach_inv W D s' \<and> timer s' = Armed"
      using a(2) by simp
    then show ?thesis
      by blast
  qed
qed

text \<open>Once the clock has reached the deadline, the timer fires.\<close>

lemma reach_Fired:
  assumes "reach_inv W D s" and "timer s = Armed"
  shows "\<exists>sched s'. run W D sched s = Some s' \<and> reach_inv W D s' \<and> timer s' = Fired"
proof -
  let ?n = "nat (deadline s - now s)"
  let ?s1 = "s\<lparr>now := now s + int ?n\<rparr>"
  let ?sched = "replicate ?n Tick @ [Timer]"
  have "timer ?s1 = Armed \<and> deadline ?s1 \<le> now ?s1"
    using assms(2) by simp
  then have "timer_step ?s1 = Some (?s1\<lparr>timer := Fired\<rparr>)"
    by (simp add: timer_step_def)
  then have r: "run W D ?sched s = Some (?s1\<lparr>timer := Fired\<rparr>)"
    by (simp add: run_append run_ticks)
  then have "reach_inv W D (?s1\<lparr>timer := Fired\<rparr>)"
    using assms(1) by (rule reach_inv_run [rotated])
  then show ?thesis
    using r by (intro exI [of _ ?sched] exI [of _ "?s1\<lparr>timer := Fired\<rparr>"]) simp
qed

lemma can_finish:
  assumes "reach_inv W D s"
  shows "\<exists>sched s'. run W D sched s = Some s' \<and> pc s' = Done"
proof -
  have armed: "\<exists>sched s'. run W D sched s0 = Some s' \<and> pc s' = Done"
    if a: "reach_inv W D s0" "timer s0 = Armed" for s0
  proof -
    obtain sc1 s1 where 1: "run W D sc1 s0 = Some s1" "reach_inv W D s1" "timer s1 = Fired"
      using reach_Fired [OF a] by blast
    obtain sc2 s2 where 2: "run W D sc2 s1 = Some s2" "pc s2 = Done"
      using finish_after_fired [OF 1(2)] 1(3) by blast
    have "run W D (sc1 @ sc2) s0 = Some s2 \<and> pc s2 = Done"
      using 1(1) 2 by (simp add: run_append)
    then show ?thesis
      by blast
  qed
  show ?thesis
  proof (cases "timer s")
    case Unarmed
    obtain sc1 s1 where 1: "run W D sc1 s = Some s1" "reach_inv W D s1" "timer s1 = Armed"
      using reach_Armed [OF assms Unarmed] by blast
    obtain sc2 s2 where 2: "run W D sc2 s1 = Some s2" "pc s2 = Done"
      using armed [OF 1(2,3)] by blast
    have "run W D (sc1 @ sc2) s = Some s2 \<and> pc s2 = Done"
      using 1(1) 2 by (simp add: run_append)
    then show ?thesis
      by blast
  next
    case Armed
    then show ?thesis
      using armed [OF assms] by simp
  next
    case Fired
    then show ?thesis
      using finish_after_fired [OF assms] by simp
  next
    case Delivered
    then show ?thesis
      using finish_after_fired [OF assms] by simp
  qed
qed

text \<open>A duration of up to 9223372036 seconds does not wrap.\<close>

lemma duration_ns_in_range:
  assumes "0 \<le> D" and "D \<le> 9223372036"
  shows "duration_ns D = D * 1000000000"
proof -
  have w: "(word_of_int D :: 64 word) * 1000000000 = word_of_int (D * 1000000000)"
    by simp
  have "- (2 ^ (LENGTH(64) - 1)) \<le> D * 1000000000"
    using assms(1) by simp
  moreover have "D * 1000000000 < 2 ^ (LENGTH(64) - 1)"
    using assms(2) by simp
  ultimately have "signed_take_bit (LENGTH(64) - 1) (D * 1000000000) = D * 1000000000"
    by (intro signed_take_bit_int_eq_self) simp_all
  then show ?thesis
    unfolding duration_ns_def w by (simp only: sint_sbintrunc')
qed

text \<open>The sign of the throughput.\<close>

lemma sum_list_snd_nonneg:
  assumes "\<forall>m \<in> set ms. (0::int) \<le> snd m"
  shows "0 \<le> sum_list (map snd ms)"
  using assms by (induction ms) auto

lemma throughput_sign:
  assumes "0 \<le> n" and "0 \<le> d"
  shows "\<not> f64_negative (f64_div (f64_mul (f64_of_int n) (Fin 1000000000)) (f64_of_int d))
       \<and> (0 < d \<longrightarrow> (\<exists>r. 0 \<le> r
              \<and> f64_div (f64_mul (f64_of_int n) (Fin 1000000000)) (f64_of_int d) = Fin r))"
proof -
  have q: "0 \<le> real_of_int n * 1000000000 / real_of_int d"
    using assms by simp
  show ?thesis
  proof (cases "d = 0")
    case True
    then show ?thesis
      using assms by (simp add: f64_of_int_def)
  next
    case False
    then show ?thesis
      using q by (auto simp: f64_of_int_def)
  qed
qed

lemma res_not_negative:
  assumes "reach_inv W D s" and "pc s = Done"
  shows "\<not> f64_negative (res s)
       \<and> (begin_t s < end_t s \<longrightarrow> (\<exists>r. 0 \<le> r \<and> res s = Fin r))
       \<and> begin_t s + duration_ns D \<le> end_t s"
proof -
  have pi: "pc_inv W s (pc s)" and ti: "timer_inv D s"
    using assms(1) by (simp_all add: reach_inv_def orch_inv_def)
  have f: "final_from (workers s) (final_rcvd s)" "nb s = sum_list (map snd (final_rcvd s))"
    using finished_state [OF assms(1)] assms(2) by simp_all
  have n: "0 \<le> nb s"
    unfolding f(2) using f(1) by (intro sum_list_snd_nonneg) (simp add: final_from_def)
  have d: "0 \<le> end_t s - begin_t s" "begin_t s + duration_ns D \<le> end_t s"
    using ti assms(2) by (simp_all add: timer_inv_def)
  have r: "res s = f64_div (f64_mul (f64_of_int (nb s)) (Fin 1000000000))
                     (f64_of_int (end_t s - begin_t s))"
    using pi assms(2) by simp
  show ?thesis
    using throughput_sign [OF n d(1)] d(2) unfolding r by simp
qed

text \<open>
  The value of the throughput when the two timestamps are equal, and when it passes the
  comparison \<^verbatim>\<open>res >= 0\<close>.
\<close>

lemma throughput_value:
  assumes "0 \<le> n" and "0 \<le> d"
  shows "f64_ge0 (f64_div (f64_mul (f64_of_int n) (Fin 1000000000)) (f64_of_int d))
           = (0 < d \<or> 0 < n)
       \<and> (d = 0 \<longrightarrow> f64_div (f64_mul (f64_of_int n) (Fin 1000000000)) (f64_of_int d)
                         = (if n = 0 then NaN else PosInf))"
proof -
  have q: "0 \<le> real_of_int n * 1000000000 / real_of_int d"
    using assms by simp
  show ?thesis
  proof (cases "d = 0")
    case True
    then show ?thesis
      using assms by (simp add: f64_of_int_def)
  next
    case False
    then show ?thesis
      using q assms(2) by (auto simp: f64_of_int_def)
  qed
qed

lemma res_value:
  assumes "reach_inv W D s" and "pc s = Done"
  shows "f64_ge0 (res s) = (begin_t s < end_t s \<or> 0 < nb s)
       \<and> (begin_t s = end_t s \<longrightarrow> res s = (if nb s = 0 then NaN else PosInf))
       \<and> begin_t s \<le> end_t s"
proof -
  have pi: "pc_inv W s (pc s)" and ti: "timer_inv D s"
    using assms(1) by (simp_all add: reach_inv_def orch_inv_def)
  have f: "final_from (workers s) (final_rcvd s)" "nb s = sum_list (map snd (final_rcvd s))"
    using finished_state [OF assms(1)] assms(2) by simp_all
  have n: "0 \<le> nb s"
    unfolding f(2) using f(1) by (intro sum_list_snd_nonneg) (simp add: final_from_def)
  have d: "0 \<le> end_t s - begin_t s"
    using ti assms(2) by (simp_all add: timer_inv_def)
  have r: "res s = f64_div (f64_mul (f64_of_int (nb s)) (Fin 1000000000))
                     (f64_of_int (end_t s - begin_t s))"
    using pi assms(2) by simp
  show ?thesis
    using throughput_value [OF n d] n d unfolding r by simp
qed

text \<open>
  C3. In every reachable state, for every number of workers and every duration:
  unless \<^verbatim>\<open>runBench\<close> has finished, \<^verbatim>\<open>runBench\<close> or a worker can make a step, so
  nothing ever waits for ever; while the timer is not running (before it is armed, and
  from the moment it has fired) every such step lowers \<open>remaining\<close>, so the barrier,
  the exit from the load loop and the shutdown each take a bounded number of steps;
  while the timer is running it fires as soon as the clock has advanced to the
  deadline; hence some schedule leads to the end from every reachable state. The load
  loop is left only when the timer has fired, not earlier than the duration after the
  start timestamp. The end timestamp is not earlier than the start timestamp, and the
  throughput computed at the end is never negative. It passes \<^verbatim>\<open>res >= 0\<close> in every
  case but one: when the two timestamps are the same reading of the clock and the sum of
  the counts is 0, it is \<open>0 / 0\<close>, which is NaN. With equal timestamps and a positive sum
  it is \<open>+Inf\<close>. It is a finite number that is at least 0 whenever the clock has advanced
  between the two timestamps, which it has for every duration from 1 to 9223372036
  seconds.
\<close>

theorem runBench_terminates:
  assumes "run W D sched init_state = Some s"
  shows "(pc s \<noteq> Done \<longrightarrow> (\<exists>a s'. a \<noteq> Tick \<and> a \<noteq> Timer \<and> exec W D a s = Some s'))
       \<and> (timer s \<noteq> Armed \<longrightarrow>
            (\<forall>a s'. a \<noteq> Tick \<and> exec W D a s = Some s' \<longrightarrow> remaining W s' < remaining W s))
       \<and> (timer s = Armed \<longrightarrow>
            (\<exists>s'. run W D (replicate (nat (deadline s - now s)) Tick @ [Timer]) s = Some s'
                 \<and> timer s' = Fired))
       \<and> (\<exists>sched' s'. run W D sched' s = Some s' \<and> pc s' = Done)
       \<and> (phase_of (pc s) = Stopping \<longrightarrow>
            timer s = Delivered \<and> begin_t s + duration_ns D \<le> now s)
       \<and> (pc s = Done \<longrightarrow>
            \<not> f64_negative (res s)
            \<and> begin_t s + duration_ns D \<le> end_t s
            \<and> begin_t s \<le> end_t s
            \<and> f64_ge0 (res s) = (begin_t s < end_t s \<or> 0 < nb s)
            \<and> (begin_t s = end_t s \<longrightarrow> res s = (if nb s = 0 then NaN else PosInf))
            \<and> (begin_t s < end_t s \<longrightarrow> (\<exists>r. 0 \<le> r \<and> res s = Fin r))
            \<and> (1 \<le> D \<and> D \<le> 9223372036 \<longrightarrow> (\<exists>r. 0 \<le> r \<and> res s = Fin r)))"
proof (intro conjI impI allI)
  have i: "reach_inv W D s"
    using assms by (rule reachable_inv)
  then have ti: "timer_inv D s"
    by (simp add: reach_inv_def)
  show "\<exists>a s'. a \<noteq> Tick \<and> a \<noteq> Timer \<and> exec W D a s = Some s'" if "pc s \<noteq> Done"
    using not_stuck [OF i that] by (rule can_move_exec)
  show "remaining W s' < remaining W s"
    if "timer s \<noteq> Armed" "a \<noteq> Tick \<and> exec W D a s = Some s'" for a s'
    using remaining_exec [OF i] that by blast
  show "\<exists>s'. run W D (replicate (nat (deadline s - now s)) Tick @ [Timer]) s = Some s'
           \<and> timer s' = Fired" if "timer s = Armed"
    using that by (simp add: run_append run_ticks timer_step_def)
  show "\<exists>sched' s'. run W D sched' s = Some s' \<and> pc s' = Done"
    using i by (rule can_finish)
  show "timer s = Delivered" if "phase_of (pc s) = Stopping"
    using ti that by (cases "pc s") (simp_all add: timer_inv_def)
  show "begin_t s + duration_ns D \<le> now s" if "phase_of (pc s) = Stopping"
    using ti that by (cases "pc s") (simp_all add: timer_inv_def)
  show "\<not> f64_negative (res s)" if "pc s = Done"
    using res_not_negative [OF i that] by simp
  show "begin_t s + duration_ns D \<le> end_t s" if "pc s = Done"
    using res_not_negative [OF i that] by simp
  show "begin_t s \<le> end_t s" if "pc s = Done"
    using res_value [OF i that] by simp
  show "f64_ge0 (res s) = (begin_t s < end_t s \<or> 0 < nb s)" if "pc s = Done"
    using res_value [OF i that] by simp
  show "res s = (if nb s = 0 then NaN else PosInf)" if "pc s = Done" "begin_t s = end_t s"
    using res_value [OF i that(1)] that(2) by simp
  show "\<exists>r. 0 \<le> r \<and> res s = Fin r" if "pc s = Done" "begin_t s < end_t s"
    using res_not_negative [OF i that(1)] that(2) by simp
  show "\<exists>r. 0 \<le> r \<and> res s = Fin r" if "pc s = Done" "1 \<le> D \<and> D \<le> 9223372036"
  proof -
    have "duration_ns D = D * 1000000000"
      using that(2) by (intro duration_ns_in_range) simp_all
    then have "begin_t s < end_t s"
      using res_not_negative [OF i that(1)] that(2) by simp
    then show ?thesis
      using res_not_negative [OF i that(1)] by simp
  qed
qed

text \<open>The run of one second, evaluated.\<close>

lemma demo_sec_start:
  "run 2 1 demo_start init_state
     = Some (demo_armed\<lparr>deadline := 1000000000,
               olog := [EGo 0, ESend OpInit, EGo 1, ESend OpInit, ERecv (1, 0), ERecv (0, 0),
                        EGC, EGC, EBegin 0, EAfterFunc 1000000000]\<rparr>)"
  by (simp add: demo_start_def demo_armed_def init_state_def orch_step_def worker_step_def
      duration_ns_def)

lemma demo_sec_run: "run 2 1 demo_sec_sched init_state = Some demo_sec_final"
  unfolding demo_sec_sched_def run_append demo_sec_start run_ticks
  by (simp add: demo_armed_def demo_sec_final_def orch_step_def worker_step_def timer_step_def
      f64_of_int_def)

text \<open>The two runs of zero seconds with equal timestamps, evaluated.\<close>

lemma still_run: "run 1 0 still_sched init_state = Some still_final"
  by (simp add: still_sched_def still_start_def still_stop_def still_final_def init_state_def
      orch_step_def worker_step_def timer_step_def duration_ns_def f64_of_int_def)

lemma still_load_run: "run 1 0 still_load_sched init_state = Some still_load_final"
  by (simp add: still_load_sched_def still_start_def still_stop_def still_load_final_def
      init_state_def orch_step_def worker_step_def timer_step_def duration_ns_def f64_of_int_def
      eval_nat_numeral)

theorem runBench_terminates_witness:
  "exec 2 0 Orch demo_fired = Some demo_exit
   \<and> remaining 2 demo_exit < remaining 2 demo_fired
   \<and> (\<exists>a s'. a \<noteq> Tick \<and> a \<noteq> Timer \<and> exec 2 0 a demo_mid = Some s')
   \<and> (\<exists>s'. run 2 0 [Timer] demo_armed = Some s' \<and> timer s' = Fired)
   \<and> (\<exists>sched' s'. run 2 0 sched' demo_mid = Some s' \<and> pc s' = Done)
   \<and> timer demo_final = Delivered
   \<and> \<not> f64_negative (res demo_final)
   \<and> (\<exists>r. 0 \<le> r \<and> res demo_final = Fin r)
   \<and> begin_t demo_sec_final + duration_ns 1 \<le> end_t demo_sec_final
   \<and> (\<exists>r. 0 \<le> r \<and> res demo_sec_final = Fin r)
   \<and> f64_ge0 (res demo_final)
   \<and> res still_load_final = PosInf
   \<and> f64_ge0 (res still_load_final)"
proof -
  have e: "exec 2 0 Orch demo_fired = Some demo_exit"
    by (simp add: demo_fired_def demo_exit_def demo_armed_def orch_step_def)
  have f: "timer demo_fired \<noteq> Armed"
    by (simp add: demo_fired_def)
  have m: "pc demo_mid \<noteq> Done"
    by (simp add: demo_mid_def)
  have a: "timer demo_armed = Armed" "nat (deadline demo_armed - now demo_armed) = 0"
    by (simp_all add: demo_armed_def)
  have d: "phase_of (pc demo_final) = Stopping" "pc demo_final = Done"
      "begin_t demo_final < end_t demo_final"
    by (simp_all add: demo_final_def)
  have c: "pc demo_sec_final = Done" "(1::int) \<le> 1 \<and> (1::int) \<le> 9223372036"
    by (simp_all add: demo_sec_final_def)
  note t0 = runBench_terminates [OF demo_mid_run]
  note t1 = runBench_terminates [OF demo_fired_run]
  note t2 = runBench_terminates [OF demo_armed_run]
  note t3 = runBench_terminates [OF demo_run]
  note t4 = runBench_terminates [OF demo_sec_run]
  note t5 = runBench_terminates [OF still_load_run]
  have l: "pc still_load_final = Done" "begin_t still_load_final = end_t still_load_final"
      "nb still_load_final \<noteq> 0" "0 < nb still_load_final"
    by (simp_all add: still_load_final_def)
  have "remaining 2 demo_exit < remaining 2 demo_fired"
    using t1 f e by blast
  moreover have "\<exists>a s'. a \<noteq> Tick \<and> a \<noteq> Timer \<and> exec 2 0 a demo_mid = Some s'"
    using t0 m by blast
  moreover have "\<exists>s'. run 2 0 [Timer] demo_armed = Some s' \<and> timer s' = Fired"
    using t2 a by (metis append_Nil replicate_0)
  moreover have "\<exists>sched' s'. run 2 0 sched' demo_mid = Some s' \<and> pc s' = Done"
    using t0 by blast
  moreover have "timer demo_final = Delivered"
    using t3 d(1) by blast
  moreover have "\<not> f64_negative (res demo_final)" "\<exists>r. 0 \<le> r \<and> res demo_final = Fin r"
    using t3 d(2,3) by blast+
  moreover have "begin_t demo_sec_final + duration_ns 1 \<le> end_t demo_sec_final"
      "\<exists>r. 0 \<le> r \<and> res demo_sec_final = Fin r"
    using t4 c by blast+
  moreover have "f64_ge0 (res demo_final)"
    using t3 d(2,3) by blast
  moreover have "res still_load_final = PosInf"
    using t5 l(1,2,3) by simp
  moreover have "f64_ge0 (res still_load_final)"
    using t5 l(1,4) by blast
  ultimately show ?thesis
    using e by blast
qed

text \<open>
  With one worker and a duration of zero seconds \<^verbatim>\<open>runBench\<close> can end with a throughput
  that is not at least 0: when the timer has fired before the first poll and the clock
  gives the same reading at both timestamps, the sum of the counts and the elapsed time
  are both 0 and the throughput is NaN.
\<close>

theorem runBench_throughput_NaN:
  "run 1 0 still_sched init_state = Some still_final
   \<and> pc still_final = Done
   \<and> nb still_final = 0
   \<and> end_t still_final - begin_t still_final = 0
   \<and> res still_final = NaN
   \<and> \<not> f64_ge0 (res still_final)"
  using still_run by (simp add: still_final_def)

end
